theory Spec2Isabelle
  imports Main "HOL-Library.Word" "HOL-Library.AList"
begin

section \<open>The C++ cache: src/c++/LRUCache.cpp\<close>

subsection \<open>Machine types, pointers and the store\<close>

text \<open>
  A C++ \<open>int\<close> is a 32-bit word read in two's complement, \<open>size_t\<close> a 64-bit
  unsigned word. A \<open>Node*\<close> is an optional address, \<open>None\<close> being \<open>nullptr\<close>.
\<close>

type_synonym cint = "32 word"
type_synonym size_t = "64 word"
type_synonym addr = nat
type_synonym ptr = "addr option"

text \<open>
  \<open>InvalidArgument\<close> is the error kind the specification names; the other two are
  what a dereference of a null or of a freed pointer is taken to be.
\<close>

datatype error = InvalidArgument | NullPointer | DanglingPointer

record Node =
  key :: cint
  val :: cint
  prev :: ptr
  nxt :: ptr

text \<open>
  The object's four members, together with the store the nodes live in: \<open>heap\<close>
  maps the addresses of live nodes to their contents, \<open>brk\<close> is the next address
  \<open>new\<close> hands out. The \<open>unordered_map\<close> is an association list with one pair
  per key, so that \<open>size()\<close> is its length.
\<close>

record LRUCache =
  capacity :: cint
  cache :: "(cint \<times> ptr) list"
  head :: ptr
  tail :: ptr
  heap :: "addr \<rightharpoonup> Node"
  brk :: addr

definition and_then :: "error + 'a \<Rightarrow> ('a \<Rightarrow> error + 'b) \<Rightarrow> error + 'b" where
  "and_then m f = (case m of Inl e \<Rightarrow> Inl e | Inr x \<Rightarrow> f x)"

text \<open>Reading through a pointer: \<open>p->...\<close>.\<close>

definition load :: "LRUCache \<Rightarrow> ptr \<Rightarrow> error + Node" where
  "load s p =
     (case p of
        None \<Rightarrow> Inl NullPointer
      | Some a \<Rightarrow> (case heap s a of None \<Rightarrow> Inl DanglingPointer | Some n \<Rightarrow> Inr n))"

text \<open>Writing one field through a pointer: \<open>p->f = ...\<close>.\<close>

definition update_node :: "ptr \<Rightarrow> (Node \<Rightarrow> Node) \<Rightarrow> LRUCache \<Rightarrow> error + LRUCache" where
  "update_node p f s =
     (case p of
        None \<Rightarrow> Inl NullPointer
      | Some a \<Rightarrow>
          (case heap s a of
             None \<Rightarrow> Inl DanglingPointer
           | Some n \<Rightarrow> Inr (s\<lparr>heap := (heap s)(a \<mapsto> f n)\<rparr>)))"

text \<open>
  \<open>new Node(k, v)\<close>: both links start as \<open>nullptr\<close>. The store has no limit:
  \<open>new\<close> always returns a fresh address.
\<close>

definition new_Node :: "cint \<Rightarrow> cint \<Rightarrow> LRUCache \<Rightarrow> ptr \<times> LRUCache" where
  "new_Node k v s =
     (Some (brk s),
      s\<lparr>heap := (heap s)(brk s \<mapsto> \<lparr>key = k, val = v, prev = None, nxt = None\<rparr>),
        brk := Suc (brk s)\<rparr>)"

text \<open>\<open>delete p\<close>: nothing for \<open>nullptr\<close>, an error for a pointer freed before.\<close>

definition delete_Node :: "ptr \<Rightarrow> LRUCache \<Rightarrow> error + LRUCache" where
  "delete_Node p s =
     (case p of
        None \<Rightarrow> Inr s
      | Some a \<Rightarrow>
          (case heap s a of
             None \<Rightarrow> Inl DanglingPointer
           | Some n \<Rightarrow> Inr (s\<lparr>heap := (heap s)(a := None)\<rparr>)))"

subsection \<open>The private list operations\<close>

definition addNode :: "ptr \<Rightarrow> LRUCache \<Rightarrow> error + LRUCache" where
  "addNode node s =
     and_then (update_node node (\<lambda>n. n\<lparr>prev := head s\<rparr>) s) (\<lambda>s1.
     and_then (load s1 (head s1)) (\<lambda>h.
     and_then (update_node node (\<lambda>n. n\<lparr>nxt := nxt h\<rparr>) s1) (\<lambda>s2.
     and_then (load s2 (head s2)) (\<lambda>h2.
     and_then (update_node (nxt h2) (\<lambda>n. n\<lparr>prev := node\<rparr>) s2) (\<lambda>s3.
     update_node (head s3) (\<lambda>n. n\<lparr>nxt := node\<rparr>) s3)))))"

definition removeNode :: "ptr \<Rightarrow> LRUCache \<Rightarrow> error + LRUCache" where
  "removeNode node s =
     and_then (load s node) (\<lambda>n.
       let prevNode = prev n; nextNode = nxt n in
       and_then (update_node prevNode (\<lambda>m. m\<lparr>nxt := nextNode\<rparr>) s) (\<lambda>s1.
       update_node nextNode (\<lambda>m. m\<lparr>prev := prevNode\<rparr>) s1))"

definition moveToHead :: "ptr \<Rightarrow> LRUCache \<Rightarrow> error + LRUCache" where
  "moveToHead node s = and_then (removeNode node s) (addNode node)"

definition popTail :: "LRUCache \<Rightarrow> error + ptr \<times> LRUCache" where
  "popTail s =
     and_then (load s (tail s)) (\<lambda>t.
       let node = prev t in
       and_then (removeNode node s) (\<lambda>s1. Inr (node, s1)))"

subsection \<open>The public operations\<close>

text \<open>The constructor: no check of \<open>capacity\<close>; two sentinel nodes linked to each other.\<close>

definition LRUCache_new :: "cint \<Rightarrow> error + LRUCache" where
  "LRUCache_new c =
     (let s0 = \<lparr>capacity = c, cache = [], head = None, tail = None,
                heap = Map.empty, brk = 0\<rparr>;
          (h, s1) = new_Node 0 0 s0;
          s2 = s1\<lparr>head := h\<rparr>;
          (t, s3) = new_Node 0 0 s2;
          s4 = s3\<lparr>tail := t\<rparr>
      in and_then (update_node (head s4) (\<lambda>n. n\<lparr>nxt := tail s4\<rparr>) s4) (\<lambda>s5.
         update_node (tail s5) (\<lambda>n. n\<lparr>prev := head s5\<rparr>) s5))"

text \<open>
  \<open>cache.find(key) == cache.end()\<close> is \<open>map_of (cache s) k = None\<close>; where the key
  is found, \<open>cache[key]\<close> is the pointer stored for it.
\<close>

definition cpp_get :: "cint \<Rightarrow> LRUCache \<Rightarrow> error + cint \<times> LRUCache" where
  "cpp_get k s =
     (case map_of (cache s) k of
        None \<Rightarrow> Inr (- 1, s)
      | Some node \<Rightarrow>
          and_then (moveToHead node s) (\<lambda>s1.
          and_then (load s1 node) (\<lambda>n. Inr (val n, s1))))"

text \<open>
  \<open>cache.size() > capacity\<close> compares a \<open>size_t\<close> with an \<open>int\<close>: the \<open>int\<close> is
  converted to \<open>size_t\<close> (sign-extended, then read as unsigned), so that a negative
  capacity becomes a number above \<open>2 ^ 63\<close>.
\<close>

definition size_exceeds :: "nat \<Rightarrow> cint \<Rightarrow> bool" where
  "size_exceeds n c \<longleftrightarrow> (scast c :: size_t) < (of_nat n :: size_t)"

definition cpp_put :: "cint \<Rightarrow> cint \<Rightarrow> LRUCache \<Rightarrow> error + LRUCache" where
  "cpp_put k v s =
     (case map_of (cache s) k of
        Some node \<Rightarrow>
          and_then (update_node node (\<lambda>n. n\<lparr>val := v\<rparr>) s) (moveToHead node)
      | None \<Rightarrow>
          (let (newNode, s1) = new_Node k v s;
               s2 = s1\<lparr>cache := AList.update k newNode (cache s1)\<rparr>
           in and_then (addNode newNode s2) (\<lambda>s3.
              if size_exceeds (length (cache s3)) (capacity s3)
              then and_then (popTail s3) (\<lambda>(lruNode, s4).
                   and_then (load s4 lruNode) (\<lambda>l.
                   delete_Node lruNode (s4\<lparr>cache := AList.delete (key l) (cache s4)\<rparr>)))
              else Inr s3)))"

text \<open>
  \<open>display\<close>: the loop walks \<open>next\<close> pointers from \<open>head->next\<close> until it meets
  \<open>tail\<close>, printing each pair; the model returns the pairs printed, most recently
  used first. The loop need not end on an arbitrary store, so it is a partial function.
\<close>

partial_function (option) display_loop ::
    "LRUCache \<Rightarrow> ptr \<Rightarrow> (cint \<times> cint) list \<Rightarrow> (error + (cint \<times> cint) list) option" where
  "display_loop s current out =
     (if current = tail s then Some (Inr out)
      else case load s current of
             Inl e \<Rightarrow> Some (Inl e)
           | Inr n \<Rightarrow> display_loop s (nxt n) (out @ [(key n, val n)]))"

definition display :: "LRUCache \<Rightarrow> (error + (cint \<times> cint) list) option" where
  "display s =
     (case load s (head s) of
        Inl e \<Rightarrow> Some (Inl e)
      | Inr h \<Rightarrow> display_loop s (nxt h) [])"

section \<open>The TypeScript cache: src/typescript/lruCache.ts\<close>

text \<open>
  A JavaScript \<open>Map\<close> keeps its entries in insertion order: an association list,
  oldest entry first. \<open>set\<close> overwrites in place or appends (\<open>AList.update\<close>),
  \<open>delete\<close> removes the entry of a key (\<open>AList.delete\<close>), \<open>size\<close> is the length.
\<close>

record ('k, 'v) TsLRUCache =
  ts_capacity :: int
  ts_cache :: "('k \<times> 'v) list"

definition ts_new :: "int \<Rightarrow> ('k, 'v) TsLRUCache" where
  "ts_new c = \<lparr>ts_capacity = c, ts_cache = []\<rparr>"

definition ts_has :: "('k \<times> 'v) list \<Rightarrow> 'k \<Rightarrow> bool" where
  "ts_has m k \<longleftrightarrow> map_of m k \<noteq> None"

text \<open>\<open>undefined\<close> is \<open>None\<close>.\<close>

definition ts_get :: "'k \<Rightarrow> ('k, 'v) TsLRUCache \<Rightarrow> 'v option \<times> ('k, 'v) TsLRUCache" where
  "ts_get k s =
     (if \<not> ts_has (ts_cache s) k then (None, s)
      else case map_of (ts_cache s) k of
             Some v \<Rightarrow> (Some v, s\<lparr>ts_cache := AList.update k v (AList.delete k (ts_cache s))\<rparr>)
           | None \<Rightarrow> (None, s))"

text \<open>
  \<open>keys().next().value\<close> is the first key, or \<open>undefined\<close> on an empty map, where
  the \<open>delete\<close> that follows removes nothing.
\<close>

definition ts_put :: "'k \<Rightarrow> 'v \<Rightarrow> ('k, 'v) TsLRUCache \<Rightarrow> ('k, 'v) TsLRUCache" where
  "ts_put k v s =
     (let m1 = (if ts_has (ts_cache s) k then AList.delete k (ts_cache s)
                else if ts_capacity s \<le> int (length (ts_cache s))
                then (case ts_cache s of
                        [] \<Rightarrow> ts_cache s
                      | (oldestKey, _) # _ \<Rightarrow> AList.delete oldestKey (ts_cache s))
                else ts_cache s)
      in s\<lparr>ts_cache := AList.update k v m1\<rparr>)"

section \<open>Sequences of calls\<close>

datatype ('k, 'v) call = Get 'k | Put 'k 'v

text \<open>A run returns the final state and what each \<open>get\<close> returned, in call order.\<close>

fun cpp_run :: "(cint, cint) call list \<Rightarrow> LRUCache \<Rightarrow> error + cint list \<times> LRUCache" where
  "cpp_run [] s = Inr ([], s)"
| "cpp_run (Get k # cs) s =
     and_then (cpp_get k s) (\<lambda>(r, s1).
     and_then (cpp_run cs s1) (\<lambda>(rs, s2). Inr (r # rs, s2)))"
| "cpp_run (Put k v # cs) s =
     and_then (cpp_put k v s) (\<lambda>s1. cpp_run cs s1)"

fun ts_run :: "('k, 'v) call list \<Rightarrow> ('k, 'v) TsLRUCache \<Rightarrow> 'v option list \<times> ('k, 'v) TsLRUCache" where
  "ts_run [] s = ([], s)"
| "ts_run (Get k # cs) s =
     (let (r, s1) = ts_get k s; (rs, s2) = ts_run cs s1 in (r # rs, s2))"
| "ts_run (Put k v # cs) s = ts_run cs (ts_put k v s)"

text \<open>
  Comparing results of the two caches: where the TypeScript \<open>get\<close> answers
  \<open>undefined\<close>, the C++ \<open>get\<close> answers \<open>-1\<close>.
\<close>

definition sentinel :: "cint option \<Rightarrow> cint" where
  "sentinel r = (case r of None \<Rightarrow> - 1 | Some v \<Rightarrow> v)"

section \<open>Abstraction: the recency list behind both caches\<close>

text \<open>
  What both caches do, told on a plain list of pairs, most recently used first; the
  parameter \<open>over\<close> says whether a size exceeds the capacity. The list is used in
  the proofs only: every claim below is stated on \<open>cpp_get\<close>, \<open>cpp_put\<close>,
  \<open>ts_get\<close> and \<open>ts_put\<close> themselves.
\<close>

definition lru_get :: "'k \<Rightarrow> ('k \<times> 'v) list \<Rightarrow> 'v option \<times> ('k \<times> 'v) list" where
  "lru_get k xs =
     (case map_of xs k of
        None \<Rightarrow> (None, xs)
      | Some v \<Rightarrow> (Some v, (k, v) # AList.delete k xs))"

definition lru_put :: "(nat \<Rightarrow> bool) \<Rightarrow> 'k \<Rightarrow> 'v \<Rightarrow> ('k \<times> 'v) list \<Rightarrow> ('k \<times> 'v) list" where
  "lru_put over k v xs =
     (if map_of xs k \<noteq> None then (k, v) # AList.delete k xs
      else if over (Suc (length xs)) then butlast ((k, v) # xs)
      else (k, v) # xs)"

fun lru_run :: "(nat \<Rightarrow> bool) \<Rightarrow> ('k, 'v) call list \<Rightarrow> ('k \<times> 'v) list \<Rightarrow>
    'v option list \<times> ('k \<times> 'v) list" where
  "lru_run over [] xs = ([], xs)"
| "lru_run over (Get k # cs) xs =
     (let (r, xs1) = lru_get k xs; (rs, xs2) = lru_run over cs xs1 in (r # rs, xs2))"
| "lru_run over (Put k v # cs) xs = lru_run over cs (lru_put over k v xs)"

text \<open>
  The shape of the store: \<open>link h a b\<close> says that \<open>a->next\<close> is \<open>b\<close> and
  \<open>b->prev\<close> is \<open>a\<close>; \<open>links\<close> says so for every two neighbours of a list
  of addresses.
\<close>

definition link :: "(addr \<rightharpoonup> Node) \<Rightarrow> addr \<Rightarrow> addr \<Rightarrow> bool" where
  "link h a b \<longleftrightarrow> (\<exists>n m. h a = Some n \<and> h b = Some m \<and> nxt n = Some b \<and> prev m = Some a)"

fun links :: "(addr \<rightharpoonup> Node) \<Rightarrow> addr list \<Rightarrow> bool" where
  "links h (a # b # zs) = (link h a b \<and> links h (b # zs))"
| "links h zs = True"

text \<open>The pair stored in the node at an address.\<close>

definition kv :: "(addr \<rightharpoonup> Node) \<Rightarrow> addr \<Rightarrow> cint \<times> cint" where
  "kv h a = (case h a of Some n \<Rightarrow> (key n, val n) | None \<Rightarrow> (0, 0))"

text \<open>The members of the object are the same; only the store may differ.\<close>

definition same_object :: "LRUCache \<Rightarrow> LRUCache \<Rightarrow> bool" where
  "same_object s s' \<longleftrightarrow> capacity s' = capacity s \<and> cache s' = cache s \<and> head s' = head s \<and>
     tail s' = tail s \<and> brk s' = brk s"

text \<open>
  \<open>wf_list s as\<close>: the nodes at \<open>as\<close> are exactly those between the two
  sentinels, in order, all different, and nothing lives at or above \<open>brk\<close>.
  \<open>wf_index s as\<close>: the map holds one entry per such node, under the node's key.
  \<open>represents s xs\<close>: the cache holds the pairs \<open>xs\<close>, most recently used first.
\<close>

definition wf_list :: "LRUCache \<Rightarrow> addr list \<Rightarrow> bool" where
  "wf_list s as \<longleftrightarrow>
     (\<exists>p q. head s = Some p \<and> tail s = Some q \<and> distinct (p # as @ [q]) \<and>
            links (heap s) (p # as @ [q]) \<and> (\<forall>a. brk s \<le> a \<longrightarrow> heap s a = None))"

definition wf_index :: "LRUCache \<Rightarrow> addr list \<Rightarrow> bool" where
  "wf_index s as \<longleftrightarrow>
     distinct (map fst (cache s)) \<and>
     set (cache s) = (\<lambda>a. (fst (kv (heap s) a), Some a)) ` set as"

definition represents :: "LRUCache \<Rightarrow> (cint \<times> cint) list \<Rightarrow> bool" where
  "represents s xs \<longleftrightarrow> (\<exists>as. wf_list s as \<and> wf_index s as \<and> xs = map (kv (heap s)) as)"

section \<open>The C++ cache refines the recency list\<close>

lemma and_then_simps [simp]: "and_then (Inl e) f = Inl e" "and_then (Inr x) f = f x"
  by (simp_all add: and_then_def)

lemma links_append: "links h (xs @ a # ys) = (links h (xs @ [a]) \<and> links h (a # ys))"
  by (induction h xs rule: links.induct) auto

lemma link_alt:
  "link h a b \<longleftrightarrow> map_option nxt (h a) = Some (Some b) \<and> map_option prev (h b) = Some (Some a)"
  by (auto simp: link_def)

lemma links_frame_fields:
  assumes "links h zs" and "distinct zs"
    and "\<forall>x\<in>set zs. x \<noteq> last zs \<longrightarrow> map_option nxt (h' x) = map_option nxt (h x)"
    and "\<forall>x\<in>set zs. x \<noteq> hd zs \<longrightarrow> map_option prev (h' x) = map_option prev (h x)"
  shows "links h' zs"
  using assms
proof (induction h zs rule: links.induct)
  case (1 h a b zs)
  from "1.prems" have "links h' (b # zs)"
    by (intro "1.IH") auto
  moreover have "a \<noteq> last (a # b # zs)"
    using "1.prems"(2) last_in_set [of "b # zs"] by auto
  with "1.prems" have "link h' a b"
    by (simp add: link_alt)
  ultimately show ?case by simp
qed auto

lemma links_dom: "links h zs \<Longrightarrow> 2 \<le> length zs \<Longrightarrow> x \<in> set zs \<Longrightarrow> x \<in> dom h"
proof (induction h zs rule: links.induct)
  case (1 h a b zs)
  then show ?case by (cases zs) (auto simp: link_def)
qed auto

lemma removeNode_links:
  assumes L: "links (heap s) (L @ [u, a, w] @ R)" and D: "distinct (L @ [u, a, w] @ R)"
  shows "\<exists>s'. removeNode (Some a) s = Inr s' \<and> same_object s s' \<and>
           links (heap s') (L @ [u, w] @ R) \<and> kv (heap s') = kv (heap s) \<and>
           dom (heap s') = dom (heap s) \<and> (\<forall>x. x \<noteq> u \<and> x \<noteq> w \<longrightarrow> heap s' x = heap s x)"
proof -
  let ?h = "heap s"
  from L have 1: "links ?h (L @ [u])" and 2: "link ?h u a" and 3: "link ?h a w"
    and 4: "links ?h (w # R)"
    using links_append [of ?h L u "a # w # R"] by simp_all
  from 2 3 obtain nu na nw where hu: "?h u = Some nu" and ha: "?h a = Some na"
    and hw: "?h w = Some nw" and pa: "prev na = Some u" and na: "nxt na = Some w"
    by (auto simp: link_def)
  from D have ne: "u \<noteq> w" "u \<noteq> a" "a \<noteq> w" by auto
  define h' where "h' = (?h)(u \<mapsto> nu\<lparr>nxt := Some w\<rparr>, w \<mapsto> nw\<lparr>prev := Some u\<rparr>)"
  have run: "removeNode (Some a) s = Inr (s\<lparr>heap := h'\<rparr>)"
    using hu ha hw pa na ne by (simp add: removeNode_def load_def update_node_def h'_def Let_def)
  have f1: "links h' (L @ [u])"
    using D hu by (intro links_frame_fields [OF 1]) (auto simp: h'_def)
  have f3: "links h' (w # R)"
    using D hw by (intro links_frame_fields [OF 4]) (auto simp: h'_def)
  have f2: "link h' u w"
    using ne by (simp add: link_def h'_def)
  have "links h' (L @ [u, w] @ R)"
    using links_append [of h' L u "w # R"] f1 f2 f3 by simp
  moreover have "kv h' = kv ?h"
    using hu hw by (auto simp: kv_def h'_def fun_eq_iff)
  moreover have "dom h' = dom ?h"
    using hu hw by (auto simp: h'_def)
  ultimately show ?thesis
    using run by (simp add: same_object_def h'_def)
qed

lemma addNode_links:
  assumes H: "head s = Some p" and L: "links (heap s) (p # w # R)"
    and D: "distinct (a # p # w # R)" and A: "heap s a = Some n"
  shows "\<exists>s'. addNode (Some a) s = Inr s' \<and> same_object s s' \<and>
           links (heap s') (p # a # w # R) \<and> kv (heap s') = kv (heap s) \<and>
           dom (heap s') = dom (heap s) \<and> (\<forall>x. x \<noteq> a \<and> x \<noteq> p \<and> x \<noteq> w \<longrightarrow> heap s' x = heap s x)"
proof -
  let ?h = "heap s"
  from L have 1: "link ?h p w" and 2: "links ?h (w # R)" by simp_all
  from 1 obtain np nw where hp: "?h p = Some np" and hw: "?h w = Some nw"
    and nx: "nxt np = Some w" by (auto simp: link_def)
  from D have ne: "a \<noteq> p" "a \<noteq> w" "p \<noteq> w" by auto
  define h' where "h' = (?h)(a \<mapsto> n\<lparr>prev := Some p, nxt := Some w\<rparr>,
      w \<mapsto> nw\<lparr>prev := Some a\<rparr>, p \<mapsto> np\<lparr>nxt := Some a\<rparr>)"
  have run: "addNode (Some a) s = Inr (s\<lparr>heap := h'\<rparr>)"
    using H A hp hw nx ne by (simp add: addNode_def load_def update_node_def h'_def)
  have f3: "links h' (w # R)"
    using D hw by (intro links_frame_fields [OF 2]) (auto simp: h'_def)
  have "link h' p a" "link h' a w"
    using ne by (simp_all add: link_def h'_def)
  with f3 have "links h' (p # a # w # R)" by simp
  moreover have "kv h' = kv ?h"
    using hp hw A ne by (auto simp: kv_def h'_def fun_eq_iff)
  moreover have "dom h' = dom ?h"
    using hp hw A by (auto simp: h'_def)
  ultimately show ?thesis
    using run by (simp add: same_object_def h'_def)
qed

lemma removeNode_wf:
  assumes "wf_list s (xs @ a # ys)"
  shows "\<exists>s'. removeNode (Some a) s = Inr s' \<and> same_object s s' \<and> wf_list s' (xs @ ys) \<and>
           kv (heap s') = kv (heap s) \<and> dom (heap s') = dom (heap s)"
proof -
  from assms obtain p q where H: "head s = Some p" and T: "tail s = Some q"
    and D: "distinct (p # (xs @ a # ys) @ [q])" and L: "links (heap s) (p # (xs @ a # ys) @ [q])"
    and B: "\<forall>a. brk s \<le> a \<longrightarrow> heap s a = None"
    by (auto simp: wf_list_def)
  obtain L' u where Lu: "p # xs = L' @ [u]"
    by (cases "p # xs" rule: rev_cases) auto
  obtain w R where wR: "ys @ [q] = w # R"
    by (cases ys) auto
  have "p # (xs @ a # ys) @ [q] = (p # xs) @ a # (ys @ [q])" by simp
  also have "\<dots> = (L' @ [u]) @ a # (w # R)" by (simp only: Lu wR)
  finally have full: "p # (xs @ a # ys) @ [q] = L' @ [u, a, w] @ R" by simp
  have "p # (xs @ ys) @ [q] = (p # xs) @ (ys @ [q])" by simp
  also have "\<dots> = (L' @ [u]) @ (w # R)" by (simp only: Lu wR)
  finally have full': "p # (xs @ ys) @ [q] = L' @ [u, w] @ R" by simp
  have L2: "links (heap s) (L' @ [u, a, w] @ R)" using L by (simp only: full)
  have D2: "distinct (L' @ [u, a, w] @ R)" using D by (simp only: full)
  from removeNode_links [OF L2 D2]
  obtain s' where R: "removeNode (Some a) s = Inr s'" "same_object s s'"
    "links (heap s') (L' @ [u, w] @ R)" "kv (heap s') = kv (heap s)"
    "dom (heap s') = dom (heap s)"
    by blast
  have "distinct (p # (xs @ ys) @ [q])" using D by auto
  moreover have "\<forall>a. brk s' \<le> a \<longrightarrow> heap s' a = None"
    using B R(2,5) by (metis domIff same_object_def)
  moreover have "links (heap s') (p # (xs @ ys) @ [q])"
    using R(3) by (simp only: full')
  moreover have "head s' = Some p" "tail s' = Some q"
    using R(2) H T by (simp_all add: same_object_def)
  ultimately have "wf_list s' (xs @ ys)"
    unfolding wf_list_def by blast
  with R show ?thesis by blast
qed

lemma wf_list_dom:
  assumes "wf_list s as" and "a \<in> set as"
  shows "a \<in> dom (heap s)"
proof -
  from assms(1) obtain p q where L: "links (heap s) (p # as @ [q])"
    by (auto simp: wf_list_def)
  show ?thesis
    by (rule links_dom [OF L]) (use assms(2) in simp_all)
qed

lemma addNode_wf:
  assumes W: "wf_list s as" and A: "a \<in> dom (heap s)" and N: "a \<notin> set as"
    and H: "head s \<noteq> Some a" and T: "tail s \<noteq> Some a"
  shows "\<exists>s'. addNode (Some a) s = Inr s' \<and> same_object s s' \<and> wf_list s' (a # as) \<and>
           kv (heap s') = kv (heap s) \<and> dom (heap s') = dom (heap s)"
proof -
  from W obtain p q where H': "head s = Some p" and T': "tail s = Some q"
    and D: "distinct (p # as @ [q])" and L: "links (heap s) (p # as @ [q])"
    and B: "\<forall>a. brk s \<le> a \<longrightarrow> heap s a = None"
    by (auto simp: wf_list_def)
  obtain w R where wR: "as @ [q] = w # R"
    by (cases as) auto
  from A obtain n where n: "heap s a = Some n" by auto
  have "a \<notin> set (p # as @ [q])" using N H T H' T' by auto
  with D have D': "distinct (a # p # w # R)"
    by (simp only: wR distinct.simps) simp
  have L2: "links (heap s) (p # w # R)" using L by (simp only: wR)
  from addNode_links [OF H' L2 D' n]
  obtain s' where R: "addNode (Some a) s = Inr s'" "same_object s s'"
    "links (heap s') (p # a # w # R)" "kv (heap s') = kv (heap s)"
    "dom (heap s') = dom (heap s)"
    by blast
  have full': "p # (a # as) @ [q] = p # a # w # R" using wR by simp
  have "distinct (p # (a # as) @ [q])" using D' by (simp only: full') auto
  moreover have "\<forall>a. brk s' \<le> a \<longrightarrow> heap s' a = None"
    using B R(2,5) by (metis domIff same_object_def)
  moreover have "links (heap s') (p # (a # as) @ [q])"
    using R(3) by (simp only: full')
  moreover have "head s' = Some p" "tail s' = Some q"
    using R(2) H' T' by (simp_all add: same_object_def)
  ultimately have "wf_list s' (a # as)"
    unfolding wf_list_def by blast
  with R show ?thesis by blast
qed

lemma same_object_trans: "same_object s s1 \<Longrightarrow> same_object s1 s2 \<Longrightarrow> same_object s s2"
  by (simp add: same_object_def)

lemma moveToHead_wf:
  assumes W: "wf_list s (xs @ a # ys)"
  shows "\<exists>s'. moveToHead (Some a) s = Inr s' \<and> same_object s s' \<and> wf_list s' (a # xs @ ys) \<and>
           kv (heap s') = kv (heap s) \<and> dom (heap s') = dom (heap s)"
proof -
  from removeNode_wf [OF W] obtain s1 where 1: "removeNode (Some a) s = Inr s1"
    "same_object s s1" "wf_list s1 (xs @ ys)" "kv (heap s1) = kv (heap s)"
    "dom (heap s1) = dom (heap s)" by blast
  have a: "a \<in> dom (heap s1)" using wf_list_dom [OF W, of a] 1(5) by simp
  have na: "a \<notin> set (xs @ ys)" "head s1 \<noteq> Some a" "tail s1 \<noteq> Some a"
    using W 1(2) by (auto simp: wf_list_def same_object_def)
  from addNode_wf [OF 1(3) a na] obtain s2 where 2: "addNode (Some a) s1 = Inr s2"
    "same_object s1 s2" "wf_list s2 (a # xs @ ys)" "kv (heap s2) = kv (heap s1)"
    "dom (heap s2) = dom (heap s1)" by blast
  show ?thesis
    using 1 2 same_object_trans [OF 1(2) 2(2)] by (simp add: moveToHead_def)
qed

lemma popTail_wf:
  assumes W: "wf_list s (xs @ [a])"
  shows "\<exists>s'. popTail s = Inr (Some a, s') \<and> same_object s s' \<and> wf_list s' xs \<and>
           kv (heap s') = kv (heap s) \<and> dom (heap s') = dom (heap s)"
proof -
  from W obtain p q where T: "tail s = Some q" and L: "links (heap s) (p # (xs @ [a]) @ [q])"
    by (auto simp: wf_list_def)
  have "link (heap s) a q"
    using L links_append [of "heap s" "p # xs" a "[q]"] by simp
  then obtain nq where q: "heap s q = Some nq" "prev nq = Some a"
    by (auto simp: link_def)
  from removeNode_wf [of s xs a "[]"] W obtain s1 where 1: "removeNode (Some a) s = Inr s1"
    "same_object s s1" "wf_list s1 xs" "kv (heap s1) = kv (heap s)"
    "dom (heap s1) = dom (heap s)" by auto
  show ?thesis
    using T q 1 by (simp add: popTail_def load_def)
qed

lemma representsI:
  "wf_list s as \<Longrightarrow> wf_index s as \<Longrightarrow> xs = map (kv (heap s)) as \<Longrightarrow> represents s xs"
  unfolding represents_def by (intro exI [of _ as]) simp

lemma delete_middle:
  assumes "distinct (map fst (l1 @ (k, v) # l2))"
  shows "AList.delete k (l1 @ (k, v) # l2) = l1 @ l2"
proof -
  have "AList.delete k (l1 @ (k, v) # l2) = AList.delete k l1 @ AList.delete k l2"
    by (simp add: AList.delete_eq)
  moreover from assms have "k \<notin> fst ` set l1" "k \<notin> fst ` set l2" by auto
  ultimately show ?thesis by (simp add: delete_id)
qed

lemma update_fresh: "map_of al k = None \<Longrightarrow> AList.update k v al = al @ [(k, v)]"
  by (induction al) auto

lemma wf_index_inj:
  assumes "wf_index s as"
  shows "inj_on (\<lambda>a. fst (kv (heap s) a)) (set as)"
proof (rule inj_onI)
  fix a b assume ab: "a \<in> set as" "b \<in> set as"
    and eq: "fst (kv (heap s) a) = fst (kv (heap s) b)"
  from assms ab have "(fst (kv (heap s) a), Some a) \<in> set (cache s)"
    "(fst (kv (heap s) b), Some b) \<in> set (cache s)"
    by (auto simp: wf_index_def)
  with eq assms have "Some a = Some b"
    unfolding wf_index_def by (metis eq_key_imp_eq_value)
  then show "a = b" by simp
qed

lemma represents_distinct:
  assumes "wf_list s as" and "wf_index s as"
  shows "distinct (map fst (map (kv (heap s)) as))"
proof -
  have "distinct as" using assms(1) by (auto simp: wf_list_def)
  then show ?thesis
    using wf_index_inj [OF assms(2)] by (simp add: distinct_map comp_def)
qed

lemma represents_length:
  assumes "wf_list s as" and "wf_index s as"
  shows "length (cache s) = length as"
proof -
  have d: "distinct as" using assms(1) by (auto simp: wf_list_def)
  have "distinct (cache s)"
    using assms(2) by (simp add: wf_index_def distinct_map)
  then have "length (cache s) = card (set (cache s))"
    by (simp add: distinct_card)
  also have "\<dots> = card ((\<lambda>a. (fst (kv (heap s) a), Some a)) ` set as)"
    using assms(2) by (simp add: wf_index_def)
  also have "\<dots> = card (set as)"
    by (rule card_image) (auto simp: inj_on_def)
  also have "\<dots> = length as"
    using d by (simp add: distinct_card)
  finally show ?thesis .
qed

lemma represents_lookup:
  assumes "wf_list s as" and "wf_index s as"
  shows "map_of (cache s) k = Some node \<longleftrightarrow>
           (\<exists>a\<in>set as. node = Some a \<and> fst (kv (heap s) a) = k)"
proof -
  have "map_of (cache s) k = Some node \<longleftrightarrow> (k, node) \<in> set (cache s)"
    using assms(2) by (simp add: wf_index_def)
  also have "\<dots> \<longleftrightarrow> (\<exists>a\<in>set as. node = Some a \<and> fst (kv (heap s) a) = k)"
    using assms(2) by (auto simp add: wf_index_def)
  finally show ?thesis .
qed

lemma represents_keys:
  assumes "wf_list s as" and "wf_index s as"
  shows "fst ` set (cache s) = fst ` set (map (kv (heap s)) as)"
proof -
  have "fst ` set (cache s) = (\<lambda>a. fst (kv (heap s) a)) ` set as"
    using assms(2) by (simp add: wf_index_def image_image)
  then show ?thesis by (simp add: image_image)
qed

lemma cpp_get_miss:
  assumes "represents s xs" and "map_of xs k = None"
  shows "cpp_get k s = Inr (- 1, s)"
proof -
  from assms(1) obtain as where W: "wf_list s as" "wf_index s as"
    and xs: "xs = map (kv (heap s)) as" by (auto simp: represents_def)
  have "k \<notin> fst ` set (cache s)"
    using assms(2) represents_keys [OF W] xs by (simp add: map_of_eq_None_iff)
  then have "map_of (cache s) k = None"
    by (simp add: map_of_eq_None_iff)
  then show ?thesis by (simp add: cpp_get_def)
qed

lemma cpp_get_hit:
  assumes "represents s xs" and "map_of xs k = Some v"
  shows "\<exists>s'. cpp_get k s = Inr (v, s') \<and> represents s' ((k, v) # AList.delete k xs) \<and>
           capacity s' = capacity s \<and> dom (heap s') = dom (heap s)"
proof -
  from assms(1) obtain as where W: "wf_list s as" "wf_index s as"
    and xs: "xs = map (kv (heap s)) as" by (auto simp: represents_def)
  let ?kv = "kv (heap s)"
  from assms(2) have "(k, v) \<in> set xs" by (rule map_of_SomeD)
  then obtain a where a: "a \<in> set as" "?kv a = (k, v)"
    using xs by auto
  then have look: "map_of (cache s) k = Some (Some a)"
    using represents_lookup [OF W, of k "Some a"] by auto
  from a(1) obtain ys zs where as: "as = ys @ a # zs"
    by (auto simp: in_set_conv_decomp)
  from moveToHead_wf [of s ys a zs] W(1) as
  obtain s' where M: "moveToHead (Some a) s = Inr s'" "same_object s s'"
    "wf_list s' (a # ys @ zs)" "kv (heap s') = ?kv" "dom (heap s') = dom (heap s)"
    by auto
  have "a \<in> dom (heap s')" using wf_list_dom [OF W(1) a(1)] M(5) by simp
  then obtain n where n: "heap s' a = Some n" by auto
  moreover have "kv (heap s') a = (k, v)" using a(2) M(4) by simp
  ultimately have "val n = v" by (simp add: kv_def)
  with look M(1) n have run: "cpp_get k s = Inr (v, s')"
    by (simp add: cpp_get_def load_def)
  have "set (a # ys @ zs) = set as" using as by auto
  moreover have "cache s' = cache s" using M(2) by (simp add: same_object_def)
  ultimately have I: "wf_index s' (a # ys @ zs)"
    using W(2) M(4) by (simp only: wf_index_def)
  have "distinct (map fst xs)" using represents_distinct [OF W] xs by simp
  then have "AList.delete k xs = map ?kv ys @ map ?kv zs"
    using delete_middle [of "map ?kv ys" k v "map ?kv zs"] a(2) by (simp add: xs as)
  then have "(k, v) # AList.delete k xs = map (kv (heap s')) (a # ys @ zs)"
    using M(4) a(2) by simp
  with M(3) I have "represents s' ((k, v) # AList.delete k xs)"
    by (rule representsI)
  with run M(2,5) show ?thesis by (auto simp: same_object_def)
qed

lemma wf_list_frame:
  assumes W: "wf_list s as" and H: "head s' = head s" and T: "tail s' = tail s"
    and B: "\<forall>x. brk s' \<le> x \<longrightarrow> heap s' x = None"
    and F: "\<forall>x. Some x = head s \<or> Some x = tail s \<or> x \<in> set as \<longrightarrow>
              map_option nxt (heap s' x) = map_option nxt (heap s x) \<and>
              map_option prev (heap s' x) = map_option prev (heap s x)"
  shows "wf_list s' as"
proof -
  from W obtain p q where P: "head s = Some p" "tail s = Some q"
    and D: "distinct (p # as @ [q])" and L: "links (heap s) (p # as @ [q])"
    by (auto simp: wf_list_def)
  have "links (heap s') (p # as @ [q])"
    using F P by (intro links_frame_fields [OF L D]) auto
  with P D H T B show ?thesis
    unfolding wf_list_def by auto
qed

lemma wf_list_notin:
  assumes "wf_list s as"
  shows "\<forall>x. Some x = head s \<or> Some x = tail s \<or> x \<in> set as \<longrightarrow> x \<in> dom (heap s) \<and> x < brk s"
proof -
  from assms obtain p q where P: "head s = Some p" "tail s = Some q"
    and L: "links (heap s) (p # as @ [q])" and B: "\<forall>a. brk s \<le> a \<longrightarrow> heap s a = None"
    by (auto simp: wf_list_def)
  have "x \<in> dom (heap s)" if "x \<in> set (p # as @ [q])" for x
    by (rule links_dom [OF L]) (use that in simp_all)
  moreover have "x < brk s" if "x \<in> dom (heap s)" for x
    using B that by (meson domIff not_le)
  ultimately show ?thesis using P by auto
qed

lemma cpp_put_hit:
  assumes "represents s xs" and "map_of xs k = Some v0"
  shows "\<exists>s'. cpp_put k v s = Inr s' \<and> represents s' ((k, v) # AList.delete k xs) \<and>
           capacity s' = capacity s \<and> dom (heap s') = dom (heap s)"
proof -
  from assms(1) obtain as where W: "wf_list s as" "wf_index s as"
    and xs: "xs = map (kv (heap s)) as" by (auto simp: represents_def)
  let ?kv = "kv (heap s)"
  from assms(2) have "(k, v0) \<in> set xs" by (rule map_of_SomeD)
  then obtain a where a: "a \<in> set as" "?kv a = (k, v0)"
    using xs by auto
  then have look: "map_of (cache s) k = Some (Some a)"
    using represents_lookup [OF W, of k "Some a"] by auto
  from a(1) obtain ys zs where as: "as = ys @ a # zs"
    by (auto simp: in_set_conv_decomp)
  obtain n where n: "heap s a = Some n"
    using wf_list_dom [OF W(1) a(1)] by auto
  have kn: "key n = k" using a(2) n by (simp add: kv_def)
  define s0 where "s0 = s\<lparr>heap := (heap s)(a \<mapsto> n\<lparr>val := v\<rparr>)\<rparr>"
  have up: "update_node (Some a) (\<lambda>n. n\<lparr>val := v\<rparr>) s = Inr s0"
    using n by (simp add: update_node_def s0_def)
  have W0: "wf_list s0 as"
  proof (rule wf_list_frame [OF W(1)])
    show "\<forall>x. brk s0 \<le> x \<longrightarrow> heap s0 x = None"
      using wf_list_notin [OF W(1)] a(1) W(1) by (auto simp: s0_def wf_list_def)
    show "\<forall>x. Some x = head s \<or> Some x = tail s \<or> x \<in> set as \<longrightarrow>
              map_option nxt (heap s0 x) = map_option nxt (heap s x) \<and>
              map_option prev (heap s0 x) = map_option prev (heap s x)"
      using n by (simp add: s0_def)
  qed (simp_all add: s0_def)
  have kv0: "kv (heap s0) = ?kv(a := (k, v))"
    using n kn by (auto simp: s0_def kv_def fun_eq_iff)
  have "fst (kv (heap s0) x) = fst (?kv x)" for x
    using a(2) by (simp add: kv0)
  then have I0: "wf_index s0 as"
    using W(2) by (simp add: wf_index_def s0_def)
  from moveToHead_wf [of s0 ys a zs] W0 as
  obtain s' where M: "moveToHead (Some a) s0 = Inr s'" "same_object s0 s'"
    "wf_list s' (a # ys @ zs)" "kv (heap s') = kv (heap s0)" "dom (heap s') = dom (heap s0)"
    by auto
  have run: "cpp_put k v s = Inr s'"
    using look up M(1) by (simp add: cpp_put_def)
  have "set (a # ys @ zs) = set as" using as by auto
  moreover have "cache s' = cache s0" using M(2) by (simp add: same_object_def)
  ultimately have I: "wf_index s' (a # ys @ zs)"
    using I0 M(4) by (simp only: wf_index_def)
  have d: "distinct (map fst xs)" using represents_distinct [OF W] xs by simp
  have "a \<notin> set ys" "a \<notin> set zs" using W(1) as by (auto simp: wf_list_def)
  then have same: "map (kv (heap s0)) ys = map ?kv ys" "map (kv (heap s0)) zs = map ?kv zs"
    by (auto simp: kv0)
  have "AList.delete k xs = map ?kv ys @ map ?kv zs"
    using d delete_middle [of "map ?kv ys" k v0 "map ?kv zs"] a(2) by (simp add: xs as)
  then have "(k, v) # AList.delete k xs = map (kv (heap s')) (a # ys @ zs)"
    using M(4) same by (simp add: kv0)
  with M(3) I have "represents s' ((k, v) # AList.delete k xs)"
    by (rule representsI)
  moreover have "capacity s' = capacity s"
    using M(2) by (simp add: same_object_def s0_def)
  moreover have "dom (heap s') = dom (heap s)"
    using M(5) n by (auto simp: s0_def)
  ultimately show ?thesis using run by blast
qed

lemma cpp_put_miss:
  assumes "represents s xs" and "map_of xs k = None"
  shows "\<exists>s'. cpp_put k v s = Inr s' \<and>
           represents s' (if size_exceeds (Suc (length xs)) (capacity s)
                          then butlast ((k, v) # xs) else (k, v) # xs) \<and>
           capacity s' = capacity s \<and>
           card (dom (heap s')) = (if size_exceeds (Suc (length xs)) (capacity s)
                                   then card (dom (heap s)) else Suc (card (dom (heap s))))"
proof -
  from assms(1) obtain as where W: "wf_list s as" "wf_index s as"
    and xs: "xs = map (kv (heap s)) as" by (auto simp: represents_def)
  let ?kv = "kv (heap s)"
  define a where "a = brk s"
  have "k \<notin> fst ` set (cache s)"
    using assms(2) represents_keys [OF W] xs by (simp add: map_of_eq_None_iff)
  then have look: "map_of (cache s) k = None"
    by (simp add: map_of_eq_None_iff)
  have fresh: "\<forall>x. Some x = head s \<or> Some x = tail s \<or> x \<in> set as \<longrightarrow> x \<noteq> a"
    using wf_list_notin [OF W(1)] by (auto simp: a_def)
  define s2 where "s2 = s\<lparr>heap := (heap s)(a \<mapsto> \<lparr>key = k, val = v, prev = None, nxt = None\<rparr>),
    brk := Suc a, cache := AList.update k (Some a) (cache s)\<rparr>"
  have W2: "wf_list s2 as"
  proof (rule wf_list_frame [OF W(1)])
    show "\<forall>x. brk s2 \<le> x \<longrightarrow> heap s2 x = None"
      using W(1) by (auto simp: s2_def wf_list_def a_def)
    show "\<forall>x. Some x = head s \<or> Some x = tail s \<or> x \<in> set as \<longrightarrow>
              map_option nxt (heap s2 x) = map_option nxt (heap s x) \<and>
              map_option prev (heap s2 x) = map_option prev (heap s x)"
      using fresh by (simp add: s2_def)
  qed (simp_all add: s2_def)
  have kv2: "kv (heap s2) = ?kv(a := (k, v))"
    by (auto simp: s2_def kv_def fun_eq_iff)
  have "a \<in> dom (heap s2)" "a \<notin> set as" "head s2 \<noteq> Some a" "tail s2 \<noteq> Some a"
    using fresh by (auto simp: s2_def)
  from addNode_wf [OF W2 this]
  obtain s3 where A: "addNode (Some a) s2 = Inr s3" "same_object s2 s3"
    "wf_list s3 (a # as)" "kv (heap s3) = kv (heap s2)" "dom (heap s3) = dom (heap s2)"
    by blast
  have c3: "cache s3 = cache s @ [(k, Some a)]" "capacity s3 = capacity s"
    using A(2) look by (simp_all add: same_object_def s2_def update_fresh)
  have kv3: "kv (heap s3) = ?kv(a := (k, v))" using A(4) kv2 by simp
  have na: "a \<notin> set as" using fresh by auto
  have I3: "wf_index s3 (a # as)"
  proof -
    have "distinct (map fst (cache s3))"
      using W(2) \<open>k \<notin> fst ` set (cache s)\<close> by (simp add: c3 wf_index_def)
    moreover have "(\<lambda>x. (fst (kv (heap s3) x), Some x)) ` set as =
        (\<lambda>x. (fst (?kv x), Some x)) ` set as"
      using na by (intro image_cong) (auto simp: kv3)
    then have "set (cache s3) = (\<lambda>x. (fst (kv (heap s3) x), Some x)) ` set (a # as)"
      using W(2) by (simp add: c3 wf_index_def kv3)
    ultimately show ?thesis by (simp only: wf_index_def)
  qed
  from W(1) have B: "\<forall>x. brk s \<le> x \<longrightarrow> heap s x = None"
    by (auto simp: wf_list_def)
  have fin: "finite (dom (heap s))"
  proof (rule finite_subset)
    show "dom (heap s) \<subseteq> {..<brk s}"
    proof
      fix x assume "x \<in> dom (heap s)"
      then have "\<not> brk s \<le> x" using B by auto
      then show "x \<in> {..<brk s}" by simp
    qed
  qed simp
  have anew: "a \<notin> dom (heap s)"
    using B by (auto simp: a_def)
  have d3: "dom (heap s3) = insert a (dom (heap s))"
    using A(5) by (simp add: s2_def)
  have m3: "map (kv (heap s3)) (a # as) = (k, v) # xs"
    using na by (simp add: kv3 xs)
  have len3: "length (cache s3) = Suc (length xs)"
    by (simp add: c3 represents_length [OF W] xs)
  have pre: "cpp_put k v s =
      (if size_exceeds (Suc (length xs)) (capacity s)
       then and_then (popTail s3) (\<lambda>(lruNode, s4).
            and_then (load s4 lruNode) (\<lambda>l.
            delete_Node lruNode (s4\<lparr>cache := AList.delete (key l) (cache s4)\<rparr>)))
       else Inr s3)"
    using look A(1) len3 c3(2) by (simp add: cpp_put_def new_Node_def s2_def a_def)
  show ?thesis
  proof (cases "size_exceeds (Suc (length xs)) (capacity s)")
    case False
    have "represents s3 ((k, v) # xs)"
      using A(3) I3 m3 [symmetric] by (rule representsI)
    moreover have "card (dom (heap s3)) = Suc (card (dom (heap s)))"
      using fin anew by (simp add: d3)
    ultimately show ?thesis using False pre c3(2) by simp
  next
    case True
    obtain ys z where yz: "a # as = ys @ [z]"
      by (cases "a # as" rule: rev_cases) auto
    have W3: "wf_list s3 (ys @ [z])" using A(3) by (simp only: yz)
    from popTail_wf [OF W3]
    obtain s4 where P: "popTail s3 = Inr (Some z, s4)" "same_object s3 s4" "wf_list s4 ys"
      "kv (heap s4) = kv (heap s3)" "dom (heap s4) = dom (heap s3)"
      by blast
    have "z \<in> dom (heap s4)" using wf_list_dom [OF W3, of z] P(5) by simp
    then obtain l where l: "heap s4 z = Some l" by auto
    have "kv (heap s4) z = (key l, val l)"
      using l by (simp add: kv_def)
    then have kl: "key l = fst (kv (heap s3) z)"
      using P(4) by simp
    define s6 where "s6 = s4\<lparr>cache := AList.delete (key l) (cache s4), heap := (heap s4)(z := None)\<rparr>"
    have run: "cpp_put k v s = Inr s6"
      using pre True P(1) l by (simp add: load_def delete_Node_def s6_def)
    have zfresh: "\<forall>x. Some x = head s4 \<or> Some x = tail s4 \<or> x \<in> set ys \<longrightarrow> x \<noteq> z"
      using W3 P(2) by (auto simp: wf_list_def same_object_def)
    have W6: "wf_list s6 ys"
    proof (rule wf_list_frame [OF P(3)])
      show "\<forall>x. brk s6 \<le> x \<longrightarrow> heap s6 x = None"
        using P(3) by (auto simp: s6_def wf_list_def)
      show "\<forall>x. Some x = head s4 \<or> Some x = tail s4 \<or> x \<in> set ys \<longrightarrow>
              map_option nxt (heap s6 x) = map_option nxt (heap s4 x) \<and>
              map_option prev (heap s6 x) = map_option prev (heap s4 x)"
        using zfresh by (simp add: s6_def)
    qed (simp_all add: s6_def)
    have "kv (heap s6) x = kv (heap s4) x" if "x \<in> set ys" for x
      using zfresh that by (auto simp: s6_def kv_def)
    then have kv6: "\<forall>x\<in>set ys. kv (heap s6) x = kv (heap s3) x"
      using P(4) by simp
    have inj: "inj_on (\<lambda>x. fst (kv (heap s3) x)) (set (ys @ [z]))"
      using wf_index_inj [OF I3] by (simp only: yz)
    have I6: "wf_index s6 ys"
    proof -
      have c4: "cache s4 = cache s3" using P(2) by (simp add: same_object_def)
      have d6: "distinct (map fst (cache s6))"
        using I3 by (simp add: s6_def c4 wf_index_def distinct_delete)
      have "set (cache s6) = {e \<in> set (cache s3). fst e \<noteq> key l}"
        by (auto simp: s6_def c4 AList.delete_eq)
      then have "set (cache s6) =
          {e \<in> (\<lambda>x. (fst (kv (heap s3) x), Some x)) ` set (ys @ [z]). fst e \<noteq> key l}"
        using I3 by (simp only: wf_index_def yz)
      also have "\<dots> = (\<lambda>x. (fst (kv (heap s3) x), Some x)) ` set ys"
      proof -
        have "fst (kv (heap s3) x) \<noteq> key l" if "x \<in> set ys" for x
        proof
          assume "fst (kv (heap s3) x) = key l"
          then have "x = z"
            using inj_onD [OF inj, of x z] that by (simp add: kl)
          with zfresh that show False by blast
        qed
        then show ?thesis by (auto simp: kl)
      qed
      also have "\<dots> = (\<lambda>x. (fst (kv (heap s6) x), Some x)) ` set ys"
        using kv6 by (intro image_cong) auto
      finally show ?thesis using d6 by (simp only: wf_index_def)
    qed
    have "map (kv (heap s6)) ys = map (kv (heap s3)) ys"
      using kv6 by simp
    also have "\<dots> = butlast (map (kv (heap s3)) (ys @ [z]))"
      by (simp add: map_butlast [symmetric])
    also have "\<dots> = butlast ((k, v) # xs)"
      using m3 by (simp only: yz)
    finally have "butlast ((k, v) # xs) = map (kv (heap s6)) ys" by simp
    with W6 I6 have "represents s6 (butlast ((k, v) # xs))"
      by (rule representsI)
    moreover have "capacity s6 = capacity s"
      using P(2) c3(2) by (simp add: s6_def same_object_def)
    moreover have "card (dom (heap s6)) = card (dom (heap s))"
    proof -
      have "dom (heap s6) = insert a (dom (heap s)) - {z}"
        using P(5) by (auto simp: s6_def d3)
      moreover have "z \<in> insert a (dom (heap s))"
        using \<open>z \<in> dom (heap s4)\<close> P(5) by (simp add: d3)
      ultimately show ?thesis
        using fin anew by simp
    qed
    ultimately show ?thesis using run True by simp
  qed
qed

lemma LRUCache_new_represents:
  "\<exists>s. LRUCache_new c = Inr s \<and> represents s [] \<and> capacity s = c \<and>
       card (dom (heap s)) = 2"
proof -
  define s where "s = \<lparr>capacity = c, cache = [], head = Some 0, tail = Some (Suc 0),
    heap = [0 \<mapsto> \<lparr>key = 0, val = 0, prev = None, nxt = Some (Suc 0)\<rparr>,
            Suc 0 \<mapsto> \<lparr>key = 0, val = 0, prev = Some 0, nxt = None\<rparr>], brk = Suc (Suc 0)\<rparr>"
  have "LRUCache_new c = Inr s"
    by (simp add: LRUCache_new_def new_Node_def update_node_def s_def fun_upd_twist)
  moreover have "wf_list s []"
    by (auto simp: wf_list_def s_def link_def)
  moreover have "wf_index s []"
    by (simp add: wf_index_def s_def)
  ultimately show ?thesis
    by (auto simp: s_def intro: representsI)
qed

lemma cpp_get_refines:
  assumes "represents s xs"
  shows "\<exists>s'. cpp_get k s = Inr (sentinel (fst (lru_get k xs)), s') \<and>
           represents s' (snd (lru_get k xs)) \<and> capacity s' = capacity s"
proof (cases "map_of xs k")
  case None
  with cpp_get_miss [OF assms None] assms show ?thesis
    by (simp add: lru_get_def sentinel_def)
next
  case (Some v)
  from cpp_get_hit [OF assms Some] obtain s' where "cpp_get k s = Inr (v, s')"
    "represents s' ((k, v) # AList.delete k xs)" "capacity s' = capacity s" by blast
  with Some show ?thesis
    by (simp add: lru_get_def sentinel_def)
qed

lemma cpp_put_refines:
  assumes "represents s xs"
  shows "\<exists>s'. cpp_put k v s = Inr s' \<and>
           represents s' (lru_put (\<lambda>n. size_exceeds n (capacity s)) k v xs) \<and>
           capacity s' = capacity s"
proof (cases "map_of xs k")
  case None
  from cpp_put_miss [OF assms None, of v] obtain s' where "cpp_put k v s = Inr s'"
    "represents s' (if size_exceeds (Suc (length xs)) (capacity s)
                    then butlast ((k, v) # xs) else (k, v) # xs)"
    "capacity s' = capacity s" by blast
  with None show ?thesis
    by (auto simp: lru_put_def)
next
  case (Some v0)
  from cpp_put_hit [OF assms Some, of v] obtain s' where "cpp_put k v s = Inr s'"
    "represents s' ((k, v) # AList.delete k xs)" "capacity s' = capacity s" by blast
  with Some show ?thesis
    by (simp add: lru_put_def)
qed

lemma cpp_run_refines:
  assumes "represents s xs"
  shows "\<exists>s'. cpp_run cs s =
             Inr (map sentinel (fst (lru_run (\<lambda>n. size_exceeds n (capacity s)) cs xs)), s') \<and>
           represents s' (snd (lru_run (\<lambda>n. size_exceeds n (capacity s)) cs xs)) \<and>
           capacity s' = capacity s"
  using assms
proof (induction cs arbitrary: s xs)
  case Nil
  then show ?case by simp
next
  case (Cons c cs)
  show ?case
  proof (cases c)
    case (Get k)
    from cpp_get_refines [OF Cons.prems, of k]
    obtain s1 where 1: "cpp_get k s = Inr (sentinel (fst (lru_get k xs)), s1)"
      "represents s1 (snd (lru_get k xs))" "capacity s1 = capacity s" by blast
    from Cons.IH [OF 1(2)] 1(3)
    obtain s2 where 2: "cpp_run cs s1 =
        Inr (map sentinel (fst (lru_run (\<lambda>n. size_exceeds n (capacity s)) cs (snd (lru_get k xs)))), s2)"
      "represents s2 (snd (lru_run (\<lambda>n. size_exceeds n (capacity s)) cs (snd (lru_get k xs))))"
      "capacity s2 = capacity s" by auto
    show ?thesis
      using 1(1) 2 by (simp add: Get split_beta)
  next
    case (Put k v)
    from cpp_put_refines [OF Cons.prems, of k v]
    obtain s1 where 1: "cpp_put k v s = Inr s1"
      "represents s1 (lru_put (\<lambda>n. size_exceeds n (capacity s)) k v xs)"
      "capacity s1 = capacity s" by blast
    from Cons.IH [OF 1(2)] 1(3)
    obtain s2 where 2: "cpp_run cs s1 =
        Inr (map sentinel (fst (lru_run (\<lambda>n. size_exceeds n (capacity s)) cs
               (lru_put (\<lambda>n. size_exceeds n (capacity s)) k v xs))), s2)"
      "represents s2 (snd (lru_run (\<lambda>n. size_exceeds n (capacity s)) cs
               (lru_put (\<lambda>n. size_exceeds n (capacity s)) k v xs)))"
      "capacity s2 = capacity s" by auto
    show ?thesis
      using 1(1) 2 by (simp add: Put)
  qed
qed

lemma display_loop_links:
  assumes "tail s = Some q" and "links (heap s) (zs @ [q])" and "q \<notin> set zs"
  shows "display_loop s (Some (hd (zs @ [q]))) out = Some (Inr (out @ map (kv (heap s)) zs))"
  using assms(2,3)
proof (induction zs arbitrary: out)
  case Nil
  then show ?case using assms(1) by (subst display_loop.simps) simp
next
  case (Cons z zs)
  from Cons.prems have l: "link (heap s) z (hd (zs @ [q]))" and r: "links (heap s) (zs @ [q])"
    by (cases zs; simp)+
  from l obtain n where n: "heap s z = Some n" "nxt n = Some (hd (zs @ [q]))"
    by (auto simp: link_def)
  have "display_loop s (Some (hd ((z # zs) @ [q]))) out =
      display_loop s (Some (hd (zs @ [q]))) (out @ [(key n, val n)])"
    using Cons.prems(2) assms(1) n by (subst display_loop.simps) (simp add: load_def)
  also have "\<dots> = Some (Inr ((out @ [(key n, val n)]) @ map (kv (heap s)) zs))"
    using Cons.prems(2) by (intro Cons.IH [OF r]) simp
  finally show ?case using n by (simp add: kv_def)
qed

lemma display_represents:
  assumes "represents s xs"
  shows "display s = Some (Inr xs)"
proof -
  from assms obtain as where W: "wf_list s as" and xs: "xs = map (kv (heap s)) as"
    by (auto simp: represents_def)
  from W obtain p q where P: "head s = Some p" "tail s = Some q"
    and D: "distinct (p # as @ [q])" and L: "links (heap s) (p # as @ [q])"
    by (auto simp: wf_list_def)
  from L have l: "link (heap s) p (hd (as @ [q]))" and r: "links (heap s) (as @ [q])"
    by (cases as; simp)+
  from l obtain n where n: "heap s p = Some n" "nxt n = Some (hd (as @ [q]))"
    by (auto simp: link_def)
  have "display s = display_loop s (Some (hd (as @ [q]))) []"
    using P n by (simp add: display_def load_def)
  also have "\<dots> = Some (Inr ([] @ map (kv (heap s)) as))"
    using D by (intro display_loop_links [OF P(2) r]) simp
  finally show ?thesis by (simp add: xs)
qed

lemma uint_scast_64: "uint (scast (c :: cint) :: size_t) = take_bit 64 (sint c)"
  by (simp only: scast_eq uint_word_of_int_eq) simp

lemma uint_of_nat_64: "uint (of_nat n :: size_t) = take_bit 64 (int n)"
  by (simp add: uint_nat unat_of_nat take_bit_eq_mod zmod_int)

lemma size_exceeds_int:
  "size_exceeds n c \<longleftrightarrow> take_bit 64 (sint c) < take_bit 64 (int n)"
  by (simp only: size_exceeds_def word_less_def uint_scast_64 uint_of_nat_64)

lemma size_exceeds_nonneg:
  assumes "0 \<le> sint c" and "n < 2 ^ 64"
  shows "size_exceeds n c \<longleftrightarrow> sint c < int n"
proof -
  have "sint c < 2 ^ 31" using sint_lt [of c] by simp
  then have "sint c < 2 ^ 64" by simp
  then have "take_bit 64 (sint c) = sint c"
    using assms(1) by (simp add: take_bit_int_eq_self)
  moreover have "int n < 2 ^ 64" using assms(2) by simp
  then have "take_bit 64 (int n) = int n"
    by (simp add: take_bit_int_eq_self)
  ultimately show ?thesis by (simp only: size_exceeds_int)
qed

lemma size_exceeds_neg:
  assumes "sint c < 0" and "n \<le> 2 ^ 33"
  shows "\<not> size_exceeds n c"
proof -
  have lo: "- (2 ^ 31) \<le> sint c" using sint_ge [of c] by simp
  have "take_bit 64 (sint c) = take_bit 64 (sint c + 2 ^ 64)"
    by (simp add: take_bit_eq_mod)
  also have "\<dots> = sint c + 2 ^ 64"
    using lo assms(1) by (intro take_bit_int_eq_self) simp_all
  finally have 1: "take_bit 64 (sint c) = sint c + 2 ^ 64" .
  have "int n < 2 ^ 64" using assms(2) by simp
  then have 2: "take_bit 64 (int n) = int n"
    by (simp add: take_bit_int_eq_self)
  show ?thesis
    using lo assms(2) by (simp only: size_exceeds_int 1 2) simp
qed

lemma length_keys_bound:
  fixes xs :: "(cint \<times> 'v) list"
  assumes "distinct (map fst xs)"
  shows "length xs \<le> 2 ^ 32"
proof -
  have "length xs = card (set (map fst xs))"
    using assms by (metis distinct_card length_map)
  also have "\<dots> \<le> card (UNIV :: cint set)"
    by (rule card_mono) simp_all
  finally show ?thesis by (simp add: card_word)
qed

lemma map_of_rev_distinct: "distinct (map fst xs) \<Longrightarrow> map_of (rev xs) = map_of xs"
  by (rule map_of_inject_set [THEN iffD2]) (simp_all add: rev_map [symmetric])

lemma delete_rev: "AList.delete k (rev xs) = rev (AList.delete k xs)"
  by (simp add: AList.delete_eq rev_filter)

lemma length_delete_present:
  assumes "distinct (map fst xs)" and "map_of xs k = Some v"
  shows "Suc (length (AList.delete k xs)) = length xs"
proof -
  from assms(2) have "(k, v) \<in> set xs" by (rule map_of_SomeD)
  then obtain l1 l2 where xs: "xs = l1 @ (k, v) # l2"
    by (auto simp: in_set_conv_decomp)
  with assms(1) have "AList.delete k xs = l1 @ l2"
    using delete_middle [of l1 k v l2] by simp
  then show ?thesis by (simp add: xs)
qed

lemma keys_cons_delete:
  "map_of xs k = Some v0 \<Longrightarrow> fst ` set ((k, v) # AList.delete k xs) = fst ` set xs"
  by (auto simp: AList.delete_eq image_iff dest!: map_of_SomeD) force+

lemma distinct_cons_delete:
  "distinct (map fst xs) \<Longrightarrow> distinct (map fst ((k, v) # AList.delete k xs))"
  by (simp add: distinct_delete delete_notin_dom)

lemma lru_get_distinct:
  "distinct (map fst xs) \<Longrightarrow> distinct (map fst (snd (lru_get k xs)))"
  using distinct_cons_delete [of xs k] by (cases "map_of xs k") (simp_all add: lru_get_def)

lemma lru_get_length:
  "distinct (map fst xs) \<Longrightarrow> length (snd (lru_get k xs)) = length xs"
  by (auto simp: lru_get_def length_delete_present split: option.split)

lemma lru_put_distinct:
  assumes "distinct (map fst xs)"
  shows "distinct (map fst (lru_put over k v xs))"
proof -
  have "distinct (map fst (butlast ((k, v) # xs)))" if "map_of xs k = None"
  proof -
    have "distinct (map fst ((k, v) # xs))"
      using assms that by (simp add: map_of_eq_None_iff)
    then have "distinct (butlast (map fst ((k, v) # xs)))"
      by (rule distinct_butlast)
    then show ?thesis
      by (simp only: map_butlast)
  qed
  moreover have "distinct (map fst ((k, v) # xs))" if "map_of xs k = None"
    using assms that by (simp add: map_of_eq_None_iff)
  ultimately show ?thesis
    using distinct_cons_delete [OF assms, of k v] by (simp add: lru_put_def)
qed

lemma reachable_represents:
  assumes "and_then (LRUCache_new c) (cpp_run cs) = Inr (rs, s)"
  shows "represents s (snd (lru_run (\<lambda>n. size_exceeds n c) cs [])) \<and> capacity s = c \<and>
         rs = map sentinel (fst (lru_run (\<lambda>n. size_exceeds n c) cs []))"
proof -
  from LRUCache_new_represents [of c] obtain s0 where 0: "LRUCache_new c = Inr s0"
    "represents s0 []" "capacity s0 = c" by blast
  from cpp_run_refines [OF 0(2), of cs] 0(3) assms 0(1) show ?thesis by auto
qed

lemma reachable_total:
  "\<exists>rs s. and_then (LRUCache_new c) (cpp_run cs) = Inr (rs, s)"
proof -
  from LRUCache_new_represents [of c] obtain s0 where 0: "LRUCache_new c = Inr s0"
    "represents s0 []" "capacity s0 = c" by blast
  from cpp_run_refines [OF 0(2), of cs] 0(1) show ?thesis by auto
qed

lemma represents_obs:
  assumes "represents s xs"
  shows "fst ` set (cache s) = fst ` set xs" and "length (cache s) = length xs"
    and "distinct (map fst xs)" and "display s = Some (Inr xs)"
    and "map_of (cache s) k = None \<longleftrightarrow> map_of xs k = None"
proof -
  from assms obtain as where W: "wf_list s as" "wf_index s as"
    and xs: "xs = map (kv (heap s)) as" by (auto simp: represents_def)
  show 1: "fst ` set (cache s) = fst ` set xs"
    using represents_keys [OF W] xs by simp
  show "length (cache s) = length xs"
    using represents_length [OF W] xs by simp
  show "distinct (map fst xs)"
    using represents_distinct [OF W] xs by simp
  show "display s = Some (Inr xs)"
    using assms by (rule display_represents)
  show "map_of (cache s) k = None \<longleftrightarrow> map_of xs k = None"
    using 1 by (simp add: map_of_eq_None_iff)
qed

section \<open>Facts about the recency list\<close>

lemma map_of_cons_delete:
  "map_of xs k = Some v \<Longrightarrow> map_of ((k, v) # AList.delete k xs) = map_of xs"
  by (auto simp: delete_conv' fun_eq_iff)

lemma lru_get_map_of: "map_of (snd (lru_get k xs)) = map_of xs"
  using map_of_cons_delete [of xs k] by (cases "map_of xs k") (simp_all add: lru_get_def)

lemma lru_get_result: "fst (lru_get k xs) = map_of xs k"
  by (cases "map_of xs k") (simp_all add: lru_get_def)

lemma lru_run_gets:
  "fst (lru_run over (map Get qs) xs) = map (map_of xs) qs \<and>
   map_of (snd (lru_run over (map Get qs) xs)) = map_of xs"
proof (induction qs arbitrary: xs)
  case Nil
  show ?case by simp
next
  case (Cons q qs)
  from Cons.IH [of "snd (lru_get q xs)"] show ?case
    by (simp add: split_beta lru_get_map_of lru_get_result)
qed

lemma lru_run_append:
  "lru_run over (cs @ ds) xs =
     (fst (lru_run over cs xs) @ fst (lru_run over ds (snd (lru_run over cs xs))),
      snd (lru_run over ds (snd (lru_run over cs xs))))"
proof (induction cs arbitrary: xs)
  case Nil
  show ?case by simp
next
  case (Cons c cs)
  then show ?case by (cases c) (simp_all add: split_beta)
qed

lemma lru_run_puts:
  assumes "\<forall>n. n \<le> length kvs + length xs \<longrightarrow> \<not> over n"
    and "distinct (map fst (rev kvs @ xs))"
  shows "lru_run over (map (\<lambda>(k, v). Put k v) kvs) xs = ([], rev kvs @ xs)"
  using assms
proof (induction kvs arbitrary: xs)
  case Nil
  show ?case by simp
next
  case (Cons kv kvs)
  obtain k v where kv: "kv = (k, v)" by (cases kv)
  from Cons.prems(2) have "k \<notin> fst ` set xs" by (auto simp: kv)
  then have "map_of xs k = None" by (simp add: map_of_eq_None_iff)
  moreover have "\<not> over (Suc (length xs))" using Cons.prems(1) by simp
  ultimately have 1: "lru_put over k v xs = (k, v) # xs" by (simp add: lru_put_def)
  have "lru_run over (map (\<lambda>(k, v). Put k v) kvs) ((k, v) # xs) = ([], rev kvs @ (k, v) # xs)"
    using Cons.prems by (intro Cons.IH) (auto simp: kv)
  then show ?case by (simp add: kv 1)
qed

lemma lru_put_length_le:
  assumes "distinct (map fst xs)" and "length xs \<le> c" and "\<forall>n. c < n \<longrightarrow> over n"
  shows "length (lru_put over k v xs) \<le> c"
proof (cases "map_of xs k")
  case None
  have "Suc (length xs) \<le> c" if "\<not> over (Suc (length xs))"
    using assms(3) that by (meson not_less)
  with None show ?thesis
    using assms(2) by (simp add: lru_put_def)
next
  case (Some v0)
  then show ?thesis
    using length_delete_present [OF assms(1) Some] assms(2) by (simp add: lru_put_def)
qed

lemma lru_run_length_le:
  assumes "distinct (map fst xs)" and "length xs \<le> c" and "\<forall>n. c < n \<longrightarrow> over n"
  shows "length (snd (lru_run over cs xs)) \<le> c"
  using assms(1,2)
proof (induction cs arbitrary: xs)
  case Nil
  then show ?case by simp
next
  case (Cons d cs)
  show ?case
  proof (cases d)
    case (Get k)
    then show ?thesis
      using Cons.IH [of "snd (lru_get k xs)"] Cons.prems
      by (simp add: split_beta lru_get_distinct lru_get_length)
  next
    case (Put k v)
    then show ?thesis
      using Cons.IH [of "lru_put over k v xs"] Cons.prems assms(3)
      by (simp add: lru_put_distinct lru_put_length_le)
  qed
qed

section \<open>The TypeScript cache refines the recency list\<close>

lemma ts_get_refines:
  assumes "distinct (map fst xs)" and "ts_cache t = rev xs"
  shows "ts_get k t = (fst (lru_get k xs), t\<lparr>ts_cache := rev (snd (lru_get k xs))\<rparr>)"
proof (cases "map_of xs k")
  case None
  then have "map_of (rev xs) k = None"
    using assms(1) by (simp add: map_of_rev_distinct)
  then show ?thesis
    using None assms(2) by (simp add: ts_get_def ts_has_def lru_get_def)
next
  case (Some v)
  then have m: "map_of (rev xs) k = Some v"
    using assms(1) by (simp add: map_of_rev_distinct)
  have "map_of (rev (AList.delete k xs)) k = None"
    using delete_notin_dom [of k xs] by (simp add: map_of_eq_None_iff)
  then have "AList.update k v (AList.delete k (rev xs)) = rev ((k, v) # AList.delete k xs)"
    by (simp add: delete_rev update_fresh)
  then show ?thesis
    using Some m assms(2) by (simp add: ts_get_def ts_has_def lru_get_def)
qed

lemma ts_put_refines:
  assumes "1 \<le> ts_capacity t" and "distinct (map fst xs)" and "ts_cache t = rev xs"
  shows "ts_put k v t = t\<lparr>ts_cache := rev (lru_put (\<lambda>n. ts_capacity t < int n) k v xs)\<rparr>"
proof (cases "map_of xs k")
  case (Some v0)
  then have m: "map_of (rev xs) k = Some v0"
    using assms(2) by (simp add: map_of_rev_distinct)
  have "map_of (rev (AList.delete k xs)) k = None"
    using delete_notin_dom [of k xs] by (simp add: map_of_eq_None_iff)
  then have "AList.update k v (AList.delete k (rev xs)) = rev ((k, v) # AList.delete k xs)"
    by (simp add: delete_rev update_fresh)
  then show ?thesis
    using Some m assms(3) by (simp add: ts_put_def ts_has_def lru_put_def)
next
  case None
  then have m: "map_of (rev xs) k = None"
    using assms(2) by (simp add: map_of_rev_distinct)
  show ?thesis
  proof (cases "ts_capacity t \<le> int (length xs)")
    case False
    then show ?thesis
      using None m assms(3) by (simp add: ts_put_def ts_has_def lru_put_def update_fresh)
  next
    case True
    with assms(1) have "xs \<noteq> []" by auto
    then obtain ys k0 v0 where xs: "xs = ys @ [(k0, v0)]"
      by (cases xs rule: rev_cases) auto
    have "AList.delete k0 (rev xs) = rev ys"
      using assms(2) delete_middle [of ys k0 v0 "[]"] by (simp only: delete_rev xs) simp
    moreover have "map_of (rev ys) k = None"
      using m by (simp add: xs split: if_splits)
    ultimately have "AList.update k v (AList.delete k0 (rev xs)) = rev ((k, v) # ys)"
      by (simp add: update_fresh)
    then show ?thesis
      using True None m assms(3) by (simp add: ts_put_def ts_has_def lru_put_def xs)
  qed
qed

lemma ts_run_refines:
  assumes "1 \<le> ts_capacity t" and "distinct (map fst xs)" and "ts_cache t = rev xs"
  shows "ts_run cs t = (fst (lru_run (\<lambda>n. ts_capacity t < int n) cs xs),
           t\<lparr>ts_cache := rev (snd (lru_run (\<lambda>n. ts_capacity t < int n) cs xs))\<rparr>)"
  using assms
proof (induction cs arbitrary: t xs)
  case Nil
  then show ?case by simp
next
  case (Cons c cs)
  show ?case
  proof (cases c)
    case (Get k)
    let ?t = "t\<lparr>ts_cache := rev (snd (lru_get k xs))\<rparr>"
    have "ts_run cs ?t = (fst (lru_run (\<lambda>n. ts_capacity ?t < int n) cs (snd (lru_get k xs))),
        ?t\<lparr>ts_cache := rev (snd (lru_run (\<lambda>n. ts_capacity ?t < int n) cs (snd (lru_get k xs))))\<rparr>)"
      using Cons.prems by (intro Cons.IH) (simp_all add: lru_get_distinct)
    then show ?thesis
      using ts_get_refines [OF Cons.prems(2,3), of k] by (simp add: Get split_beta)
  next
    case (Put k v)
    let ?xs = "lru_put (\<lambda>n. ts_capacity t < int n) k v xs"
    let ?t = "t\<lparr>ts_cache := rev ?xs\<rparr>"
    have "ts_run cs ?t = (fst (lru_run (\<lambda>n. ts_capacity ?t < int n) cs ?xs),
        ?t\<lparr>ts_cache := rev (snd (lru_run (\<lambda>n. ts_capacity ?t < int n) cs ?xs))\<rparr>)"
      using Cons.prems by (intro Cons.IH) (simp_all add: lru_put_distinct)
    then show ?thesis
      using ts_put_refines [OF Cons.prems, of k v] by (simp add: Put)
  qed
qed

lemma lru_put_cong:
  fixes xs :: "(cint \<times> 'v) list"
  assumes "distinct (map fst xs)" and "\<forall>n. n < 2 ^ 64 \<longrightarrow> over n = over' n"
  shows "lru_put over k v xs = lru_put over' k v xs"
proof -
  have "length xs \<le> 2 ^ 32" using length_keys_bound [OF assms(1)] .
  then have "Suc (length xs) < 2 ^ 64" by simp
  with assms(2) show ?thesis by (simp add: lru_put_def)
qed

lemma lru_run_cong:
  fixes xs :: "(cint \<times> 'v) list"
  assumes "distinct (map fst xs)" and "\<forall>n. n < 2 ^ 64 \<longrightarrow> over n = over' n"
  shows "lru_run over cs xs = lru_run over' cs xs"
  using assms(1)
proof (induction cs arbitrary: xs)
  case Nil
  then show ?case by simp
next
  case (Cons c cs)
  show ?case
  proof (cases c)
    case (Get k)
    then show ?thesis
      using Cons.IH [OF lru_get_distinct [OF Cons.prems, of k]] by (simp add: split_beta)
  next
    case (Put k v)
    have "lru_put over k v xs = lru_put over' k v xs"
      using Cons.prems assms(2) by (rule lru_put_cong)
    then show ?thesis
      using Cons.IH [OF lru_put_distinct [OF Cons.prems, of over' k v]] by (simp add: Put)
  qed
qed

section \<open>What the refinement says about runs\<close>

lemma size_exceeds_two:
  "\<not> size_exceeds (Suc 0) 2" "\<not> size_exceeds (Suc (Suc 0)) 2" "size_exceeds (Suc (Suc (Suc 0))) 2"
  by (simp_all add: size_exceeds_def)

lemma cpp_run_by_list:
  assumes "lru_run (\<lambda>n. size_exceeds n c) cs [] = (os, xs)"
  shows "\<exists>s. and_then (LRUCache_new c) (cpp_run cs) = Inr (map sentinel os, s) \<and>
           fst ` set (cache s) = fst ` set xs \<and> length (cache s) = length xs \<and>
           display s = Some (Inr xs)"
proof -
  obtain rs s where r: "and_then (LRUCache_new c) (cpp_run cs) = Inr (rs, s)"
    using reachable_total by blast
  from reachable_represents [OF r] assms
  have "represents s xs" "rs = map sentinel os" by simp_all
  with r represents_obs(1,2,4) [of s xs] show ?thesis by blast
qed

lemma cpp_run_replicate_miss:
  "map_of (cache s) k = None \<Longrightarrow> cpp_run (replicate n (Get k)) s = Inr (replicate n (- 1), s)"
  by (induction n) (simp_all add: cpp_get_def)

lemma ts_run_replicate_miss:
  "map_of (ts_cache t) k = None \<Longrightarrow> ts_run (replicate n (Get k)) t = (replicate n None, t)"
  by (induction n) (simp_all add: ts_get_def ts_has_def)

lemma ts_put_resident:
  assumes "distinct (map fst (ts_cache t))" and "map_of (ts_cache t) k = Some v0"
  shows "ts_cache (ts_put k v t) = AList.delete k (ts_cache t) @ [(k, v)]"
    and "length (ts_cache (ts_put k v t)) = length (ts_cache t)"
    and "fst ` set (ts_cache (ts_put k v t)) = fst ` set (ts_cache t)"
    and "fst (ts_get k (ts_put k v t)) = Some v"
proof -
  have n: "map_of (AList.delete k (ts_cache t)) k = None"
    using delete_notin_dom [of k "ts_cache t"] by (simp add: map_of_eq_None_iff)
  then show 1: "ts_cache (ts_put k v t) = AList.delete k (ts_cache t) @ [(k, v)]"
    using assms(2) by (simp add: ts_put_def ts_has_def update_fresh)
  show "length (ts_cache (ts_put k v t)) = length (ts_cache t)"
    using length_delete_present [OF assms] by (simp add: 1)
  have "fst ` set ((k, v) # AList.delete k (ts_cache t)) = fst ` set (ts_cache t)"
    using assms(2) by (rule keys_cons_delete)
  then show "fst ` set (ts_cache (ts_put k v t)) = fst ` set (ts_cache t)"
    by (simp add: 1)
  have "map_of (ts_cache (ts_put k v t)) k = Some v"
    using n by (simp add: 1 map_add_def)
  then show "fst (ts_get k (ts_put k v t)) = Some v"
    by (simp add: ts_get_def ts_has_def)
qed

lemma lru_run_puts_gets:
  assumes "distinct (map fst kvs)" and "\<forall>n. n \<le> length kvs \<longrightarrow> \<not> over n"
    and "set qs \<subseteq> fst ` set kvs"
  shows "fst (lru_run over (map (\<lambda>(k, v). Put k v) kvs @ map Get qs) []) = map (map_of kvs) qs"
    and "fst ` set (snd (lru_run over (map (\<lambda>(k, v). Put k v) kvs @ map Get qs) [])) = fst ` set kvs"
    and "\<forall>r\<in>set (map (map_of kvs) qs). r \<noteq> None"
proof -
  have d: "distinct (map fst (rev kvs @ []))"
    using assms(1) by (simp add: rev_map [symmetric])
  have p: "lru_run over (map (\<lambda>(k, v). Put k v) kvs) [] = ([], rev kvs)"
    using lru_run_puts [of kvs "[]" over] assms(2) d by simp
  note g = lru_run_gets [of over qs "rev kvs"]
  have m: "map_of (rev kvs) = map_of kvs"
    using assms(1) by (rule map_of_rev_distinct)
  show "fst (lru_run over (map (\<lambda>(k, v). Put k v) kvs @ map Get qs) []) = map (map_of kvs) qs"
    using g by (simp add: lru_run_append p m)
  have "dom (map_of (snd (lru_run over (map Get qs) (rev kvs)))) = dom (map_of kvs)"
    using g m by simp
  then show "fst ` set (snd (lru_run over (map (\<lambda>(k, v). Put k v) kvs @ map Get qs) [])) = fst ` set kvs"
    by (simp add: lru_run_append p dom_map_of_conv_image_fst)
  have "map_of kvs q \<noteq> None" if "q \<in> set qs" for q
    using that assms(3) by (simp add: map_of_eq_None_iff subset_iff)
  then show "\<forall>r\<in>set (map (map_of kvs) qs). r \<noteq> None"
    by auto
qed

lemma lru_run_int_capacity:
  fixes cs :: "(cint, 'v) call list"
  assumes "0 \<le> sint c"
  shows "lru_run (\<lambda>n. size_exceeds n c) cs [] = lru_run (\<lambda>n. sint c < int n) cs []"
  using assms by (intro lru_run_cong) (simp_all add: size_exceeds_nonneg)

lemma lru_run_capacity_zero:
  assumes "over (Suc 0)"
  shows "snd (lru_run over cs []) = [] \<and> (\<forall>r\<in>set (fst (lru_run over cs [])). r = None)"
proof (induction cs)
  case Nil
  show ?case by simp
next
  case (Cons d cs)
  then show ?case
    using assms by (cases d) (simp_all add: split_beta lru_get_def lru_put_def)
qed

subsection \<open>The capacity bound, where it holds\<close>

text \<open>
  The C++ cache never holds more than \<open>capacity\<close> entries when the capacity is not
  negative, and a C++ cache of capacity 0 stays empty. The TypeScript cache keeps the
  bound from capacity 1 on.
\<close>

lemma cpp_capacity_bound:
  assumes "0 \<le> sint c" and "and_then (LRUCache_new c) (cpp_run cs) = Inr (rs, s)"
  shows "int (length (cache s)) \<le> sint c" and "card (fst ` set (cache s)) = length (cache s)"
proof -
  define xs where "xs = snd (lru_run (\<lambda>n. sint c < int n) cs ([] :: (cint \<times> cint) list))"
  have R: "represents s xs"
    using reachable_represents [OF assms(2)] by (simp add: xs_def lru_run_int_capacity [OF assms(1)])
  note O = represents_obs [OF R]
  have "length xs \<le> nat (sint c)"
    unfolding xs_def by (rule lru_run_length_le) (use assms(1) in auto)
  then show "int (length (cache s)) \<le> sint c"
    using O(2) assms(1) by simp
  have "card (fst ` set (cache s)) = card (set (map fst xs))"
    using O(1) by simp
  also have "\<dots> = length xs"
    using distinct_card [OF O(3)] by simp
  finally show "card (fst ` set (cache s)) = length (cache s)"
    using O(2) by simp
qed

lemma cpp_capacity_zero:
  assumes "and_then (LRUCache_new 0) (cpp_run cs) = Inr (rs, s)"
  shows "cache s = []" and "display s = Some (Inr [])" and "\<forall>r\<in>set rs. r = - 1"
proof -
  have o: "size_exceeds (Suc 0) 0" by (simp add: size_exceeds_def)
  note Z = lru_run_capacity_zero [of "\<lambda>n. size_exceeds n 0" cs, OF o]
  note R = reachable_represents [OF assms]
  have r: "represents s []" using R Z by simp
  show "cache s = []" using represents_obs(2) [OF r] by simp
  show "display s = Some (Inr [])" using r by (rule display_represents)
  show "\<forall>r\<in>set rs. r = - 1" using R Z by (auto simp: sentinel_def)
qed

lemma ts_capacity_bound:
  assumes "1 \<le> c"
  shows "int (length (ts_cache (snd (ts_run cs (ts_new c))))) \<le> c"
proof -
  have c1: "1 \<le> ts_capacity (ts_new c)" using assms by (simp add: ts_new_def)
  have t: "ts_run cs (ts_new c) = (fst (lru_run (\<lambda>n. c < int n) cs []),
      (ts_new c)\<lparr>ts_cache := rev (snd (lru_run (\<lambda>n. c < int n) cs []))\<rparr>)"
    using ts_run_refines [OF c1, of "[]" cs] by (simp add: ts_new_def)
  have "length (snd (lru_run (\<lambda>n. c < int n) cs [])) \<le> nat c"
    by (rule lru_run_length_le) (use assms in auto)
  then show ?thesis using assms by (simp add: t)
qed

subsection \<open>Memory in use\<close>

text \<open>
  After each call the C++ store holds one node per entry of the map and the two
  sentinels, nothing else. The TypeScript map never holds more than
  \<open>max 1 capacity\<close> entries.
\<close>

lemma cpp_get_live:
  assumes "represents s xs" and "cpp_get k s = Inr (r, s')"
  shows "card (dom (heap s')) + length xs = card (dom (heap s)) + length (snd (lru_get k xs))"
proof (cases "map_of xs k")
  case None
  with cpp_get_miss [OF assms(1) None] assms(2) show ?thesis
    by (simp add: lru_get_def)
next
  case (Some v)
  from cpp_get_hit [OF assms(1) Some] assms(2) have "dom (heap s') = dom (heap s)"
    by auto
  moreover have "Suc (length (AList.delete k xs)) = length xs"
    using represents_obs(3) [OF assms(1)] Some by (rule length_delete_present)
  ultimately show ?thesis
    using Some by (simp add: lru_get_def)
qed

lemma cpp_put_live:
  assumes "represents s xs" and "cpp_put k v s = Inr s'"
  shows "card (dom (heap s')) + length xs =
           card (dom (heap s)) + length (lru_put (\<lambda>n. size_exceeds n (capacity s)) k v xs)"
proof (cases "map_of xs k")
  case None
  from cpp_put_miss [OF assms(1) None, of v] assms(2)
  have "card (dom (heap s')) = (if size_exceeds (Suc (length xs)) (capacity s)
                                then card (dom (heap s)) else Suc (card (dom (heap s))))"
    by auto
  with None show ?thesis
    by (simp add: lru_put_def)
next
  case (Some v0)
  from cpp_put_hit [OF assms(1) Some, of v] assms(2) have "dom (heap s') = dom (heap s)"
    by auto
  moreover have "Suc (length (AList.delete k xs)) = length xs"
    using represents_obs(3) [OF assms(1)] Some by (rule length_delete_present)
  ultimately show ?thesis
    using Some by (simp add: lru_put_def)
qed

lemma cpp_run_live:
  assumes "represents s xs" and "cpp_run cs s = Inr (rs, s')"
  shows "card (dom (heap s')) + length xs =
           card (dom (heap s)) + length (snd (lru_run (\<lambda>n. size_exceeds n (capacity s)) cs xs))"
  using assms
proof (induction cs arbitrary: s xs rs)
  case Nil
  then show ?case by simp
next
  case (Cons d cs)
  let ?over = "\<lambda>n. size_exceeds n (capacity s)"
  show ?case
  proof (cases d)
    case (Get k)
    from cpp_get_refines [OF Cons.prems(1), of k]
    obtain s1 where 1: "cpp_get k s = Inr (sentinel (fst (lru_get k xs)), s1)"
      "represents s1 (snd (lru_get k xs))" "capacity s1 = capacity s" by blast
    from Cons.prems(2) 1(1) obtain rs1 where r: "cpp_run cs s1 = Inr (rs1, s')"
      by (cases "cpp_run cs s1") (auto simp: Get)
    from Cons.IH [OF 1(2) r] 1(3) cpp_get_live [OF Cons.prems(1) 1(1)]
    show ?thesis by (simp add: Get split_beta)
  next
    case (Put k v)
    from cpp_put_refines [OF Cons.prems(1), of k v]
    obtain s1 where 1: "cpp_put k v s = Inr s1"
      "represents s1 (lru_put ?over k v xs)" "capacity s1 = capacity s" by blast
    from Cons.prems(2) 1(1) have r: "cpp_run cs s1 = Inr (rs, s')"
      by (simp add: Put)
    from Cons.IH [OF 1(2) r] 1(3) cpp_put_live [OF Cons.prems(1) 1(1)]
    show ?thesis by (simp add: Put)
  qed
qed

lemma reachable_live:
  assumes "and_then (LRUCache_new c) (cpp_run cs) = Inr (rs, s)"
  shows "card (dom (heap s)) = length (cache s) + 2"
proof -
  from LRUCache_new_represents [of c] obtain s0 where 0: "LRUCache_new c = Inr s0"
    "represents s0 []" "capacity s0 = c" "card (dom (heap s0)) = 2" by blast
  from assms 0(1) have r: "cpp_run cs s0 = Inr (rs, s)" by simp
  have "represents s (snd (lru_run (\<lambda>n. size_exceeds n c) cs []))"
    using reachable_represents [OF assms] by simp
  then have "length (cache s) = length (snd (lru_run (\<lambda>n. size_exceeds n c) cs []))"
    by (rule represents_obs)
  with cpp_run_live [OF 0(2) r] 0(3,4) show ?thesis by simp
qed

lemma ts_put_length_le_one:
  assumes "ts_capacity t \<le> 0" and "length (ts_cache t) \<le> 1"
  shows "length (ts_cache (ts_put k v t)) \<le> 1" and "ts_capacity (ts_put k v t) = ts_capacity t"
proof -
  show "ts_capacity (ts_put k v t) = ts_capacity t"
    by (simp add: ts_put_def Let_def)
  consider "ts_cache t = []" | e where "ts_cache t = [e]"
    using assms(2) by (cases "ts_cache t"; cases "tl (ts_cache t)") auto
  then show "length (ts_cache (ts_put k v t)) \<le> 1"
  proof cases
    case 1
    then show ?thesis by (simp add: ts_put_def ts_has_def)
  next
    case 2
    then show ?thesis
      using assms(1) by (cases e) (auto simp: ts_put_def ts_has_def)
  qed
qed

lemma ts_get_length_le_one:
  assumes "length (ts_cache t) \<le> 1"
  shows "length (ts_cache (snd (ts_get k t))) \<le> 1" and "ts_capacity (snd (ts_get k t)) = ts_capacity t"
proof -
  show "ts_capacity (snd (ts_get k t)) = ts_capacity t"
    by (simp add: ts_get_def split: option.split)
  consider "ts_cache t = []" | e where "ts_cache t = [e]"
    using assms by (cases "ts_cache t"; cases "tl (ts_cache t)") auto
  then show "length (ts_cache (snd (ts_get k t))) \<le> 1"
  proof cases
    case 1
    then show ?thesis by (simp add: ts_get_def ts_has_def)
  next
    case 2
    then show ?thesis
      by (cases e) (auto simp: ts_get_def ts_has_def)
  qed
qed

lemma ts_run_length_le_one:
  assumes "ts_capacity t \<le> 0" and "length (ts_cache t) \<le> 1"
  shows "length (ts_cache (snd (ts_run cs t))) \<le> 1"
  using assms
proof (induction cs arbitrary: t)
  case Nil
  then show ?case by simp
next
  case (Cons d cs)
  show ?case
  proof (cases d)
    case (Get k)
    have "length (ts_cache (snd (ts_run cs (snd (ts_get k t))))) \<le> 1"
      using Cons.prems ts_get_length_le_one [of t k] by (intro Cons.IH) simp_all
    then show ?thesis by (simp add: Get split_beta)
  next
    case (Put k v)
    have "length (ts_cache (snd (ts_run cs (ts_put k v t)))) \<le> 1"
      using Cons.prems ts_put_length_le_one [of t k v] by (intro Cons.IH) simp_all
    then show ?thesis by (simp add: Put)
  qed
qed

lemma ts_size_bound:
  "int (length (ts_cache (snd (ts_run cs (ts_new c))))) \<le> max 1 c"
proof (cases "1 \<le> c")
  case True
  then show ?thesis using ts_capacity_bound [OF True, of cs] by simp
next
  case False
  then have "length (ts_cache (snd (ts_run cs (ts_new c)))) \<le> 1"
    by (intro ts_run_length_le_one) (simp_all add: ts_new_def)
  then show ?thesis by simp
qed

section \<open>The claims\<close>

text \<open>
  Claim C1. For every capacity \<open>c \<ge> 0\<close> and every sequence of put and get calls, the
  number of resident keys is at most \<open>c\<close> after each call. The C++ cache does this
  (\<open>cpp_capacity_bound\<close>), and so does the TypeScript cache from capacity 1 on
  (\<open>ts_capacity_bound\<close>). The TypeScript cache of capacity 0 does not: its \<open>put\<close>
  finds nothing to delete in the empty map and then stores the entry, so that one put
  leaves one resident key.
\<close>

theorem ts_capacity_zero_exceeds_capacity:
  "ts_put (1 :: int) (1 :: int) (ts_new 0) = \<lparr>ts_capacity = 0, ts_cache = [(1, 1)]\<rparr> \<and>
   \<not> int (length (ts_cache (ts_put (1 :: int) (1 :: int) (ts_new 0)))) \<le> 0"
  by (simp add: ts_new_def ts_put_def ts_has_def)

text \<open>
  Claim C2. On a cache of capacity 0 every put leaves the cache empty and every get
  finds nothing. The C++ cache does this (\<open>cpp_capacity_zero\<close>). The TypeScript cache
  does not: after put(1,7) on a cache of capacity 0 the entry is resident and get(1)
  returns 7.
\<close>

theorem ts_capacity_zero_admits_and_returns:
  "ts_run [Put (1 :: int) (7 :: int), Get 1] (ts_new 0)
     = ([Some 7], \<lparr>ts_capacity = 0, ts_cache = [(1, 7)]\<rparr>)"
  by (simp add: ts_new_def ts_put_def ts_get_def ts_has_def)

text \<open>
  Claim C3. On a cache of capacity 2, the calls put(1,1), put(2,2), get(1), put(3,3),
  get(2), put(4,4), get(1), get(3), get(4) go as the demo in \<open>main\<close> says: the first
  get(1) returns 1; put(3,3) evicts key 2, not key 1, leaving the keys 1 and 3; get(2)
  then misses; put(4,4) evicts key 1; get(1) misses, get(3) returns 3 and get(4)
  returns 4. The C++ cache answers a miss with -1, the TypeScript cache with
  \<open>undefined\<close>.
\<close>

theorem scenario_capacity_two:
  "(\<exists>s. and_then (LRUCache_new 2) (cpp_run [Put 1 1, Put 2 2, Get 1]) = Inr ([1], s) \<and>
        fst ` set (cache s) = {1, 2} \<and> display s = Some (Inr [(1, 1), (2, 2)])) \<and>
   (\<exists>s. and_then (LRUCache_new 2) (cpp_run [Put 1 1, Put 2 2, Get 1, Put 3 3]) = Inr ([1], s) \<and>
        fst ` set (cache s) = {1, 3} \<and> display s = Some (Inr [(3, 3), (1, 1)])) \<and>
   (\<exists>s. and_then (LRUCache_new 2) (cpp_run [Put 1 1, Put 2 2, Get 1, Put 3 3, Get 2])
          = Inr ([1, - 1], s) \<and>
        fst ` set (cache s) = {1, 3}) \<and>
   (\<exists>s. and_then (LRUCache_new 2) (cpp_run [Put 1 1, Put 2 2, Get 1, Put 3 3, Get 2, Put 4 4])
          = Inr ([1, - 1], s) \<and>
        fst ` set (cache s) = {3, 4} \<and> display s = Some (Inr [(4, 4), (3, 3)])) \<and>
   (\<exists>s. and_then (LRUCache_new 2)
          (cpp_run [Put 1 1, Put 2 2, Get 1, Put 3 3, Get 2, Put 4 4, Get 1, Get 3, Get 4])
          = Inr ([1, - 1, - 1, 3, 4], s) \<and>
        fst ` set (cache s) = {3, 4}) \<and>
   ts_run [Put 1 1, Put 2 2, Get 1, Put 3 3] (ts_new 2)
     = ([Some (1 :: int)], \<lparr>ts_capacity = 2, ts_cache = [(1 :: int, 1), (3, 3)]\<rparr>) \<and>
   ts_run [Put 1 1, Put 2 2, Get 1, Put 3 3, Get 2, Put 4 4, Get 1, Get 3, Get 4] (ts_new 2)
     = ([Some (1 :: int), None, None, Some 3, Some 4],
        \<lparr>ts_capacity = 2, ts_cache = [(3 :: int, 3), (4, 4)]\<rparr>)"
proof -
  note ev = lru_get_def lru_put_def size_exceeds_two AList.delete_eq
  have 1: "lru_run (\<lambda>n. size_exceeds n 2) [Put 1 1, Put 2 2, Get 1] []
      = ([Some 1], [(1, 1), (2, 2 :: cint)] :: (cint \<times> cint) list)"
    by (simp add: ev)
  have 2: "lru_run (\<lambda>n. size_exceeds n 2) [Put 1 1, Put 2 2, Get 1, Put 3 3] []
      = ([Some 1], [(3, 3), (1, 1 :: cint)] :: (cint \<times> cint) list)"
    by (simp add: ev)
  have 3: "lru_run (\<lambda>n. size_exceeds n 2) [Put 1 1, Put 2 2, Get 1, Put 3 3, Get 2] []
      = ([Some 1, None], [(3, 3), (1, 1 :: cint)] :: (cint \<times> cint) list)"
    by (simp add: ev)
  have 4: "lru_run (\<lambda>n. size_exceeds n 2) [Put 1 1, Put 2 2, Get 1, Put 3 3, Get 2, Put 4 4] []
      = ([Some 1, None], [(4, 4), (3, 3 :: cint)] :: (cint \<times> cint) list)"
    by (simp add: ev)
  have 5: "lru_run (\<lambda>n. size_exceeds n 2)
        [Put 1 1, Put 2 2, Get 1, Put 3 3, Get 2, Put 4 4, Get 1, Get 3, Get 4] []
      = ([Some 1, None, None, Some 3, Some 4], [(4, 4), (3, 3 :: cint)] :: (cint \<times> cint) list)"
    by (simp add: ev)
  have t: "ts_run [Put 1 1, Put 2 2, Get 1, Put 3 3] (ts_new 2)
     = ([Some (1 :: int)], \<lparr>ts_capacity = 2, ts_cache = [(1 :: int, 1), (3, 3)]\<rparr>)"
    "ts_run [Put 1 1, Put 2 2, Get 1, Put 3 3, Get 2, Put 4 4, Get 1, Get 3, Get 4] (ts_new 2)
     = ([Some (1 :: int), None, None, Some 3, Some 4],
        \<lparr>ts_capacity = 2, ts_cache = [(3 :: int, 3), (4, 4)]\<rparr>)"
    by (simp_all add: ts_new_def ts_get_def ts_put_def ts_has_def AList.delete_eq)
  have c1: "\<exists>s. and_then (LRUCache_new 2) (cpp_run [Put 1 1, Put 2 2, Get 1]) = Inr ([1], s) \<and>
        fst ` set (cache s) = {1, 2} \<and> display s = Some (Inr [(1, 1), (2, 2)])"
    using cpp_run_by_list [OF 1] by (auto simp: sentinel_def)
  have c2: "\<exists>s. and_then (LRUCache_new 2) (cpp_run [Put 1 1, Put 2 2, Get 1, Put 3 3])
          = Inr ([1], s) \<and>
        fst ` set (cache s) = {1, 3} \<and> display s = Some (Inr [(3, 3), (1, 1)])"
    using cpp_run_by_list [OF 2] by (auto simp: sentinel_def)
  have c3: "\<exists>s. and_then (LRUCache_new 2) (cpp_run [Put 1 1, Put 2 2, Get 1, Put 3 3, Get 2])
          = Inr ([1, - 1], s) \<and>
        fst ` set (cache s) = {1, 3}"
    using cpp_run_by_list [OF 3] by (auto simp: sentinel_def)
  have c4: "\<exists>s. and_then (LRUCache_new 2)
          (cpp_run [Put 1 1, Put 2 2, Get 1, Put 3 3, Get 2, Put 4 4]) = Inr ([1, - 1], s) \<and>
        fst ` set (cache s) = {3, 4} \<and> display s = Some (Inr [(4, 4), (3, 3)])"
    using cpp_run_by_list [OF 4] by (auto simp: sentinel_def)
  have c5: "\<exists>s. and_then (LRUCache_new 2)
          (cpp_run [Put 1 1, Put 2 2, Get 1, Put 3 3, Get 2, Put 4 4, Get 1, Get 3, Get 4])
          = Inr ([1, - 1, - 1, 3, 4], s) \<and>
        fst ` set (cache s) = {3, 4}"
    using cpp_run_by_list [OF 5] by (auto simp: sentinel_def)
  show ?thesis
    by (intro conjI c1 c2 c3 c4 c5 t)
qed

text \<open>
  Claim C4, as stated: construction with a negative capacity fails with
  \<open>InvalidArgument\<close>. Neither constructor checks its argument: with capacity -1
  the C++ constructor returns a cache, on which put(1,1) and get(1) work, and so does
  the TypeScript one.
\<close>

theorem negative_capacity_is_accepted:
  "sint (- 1 :: cint) < 0 \<and>
   LRUCache_new (- 1) \<noteq> Inl InvalidArgument \<and>
   map_sum id fst (and_then (LRUCache_new (- 1)) (cpp_run [Put 1 1, Get 1])) = Inr [1] \<and>
   ts_run [Put (1 :: int) (1 :: int), Get 1] (ts_new (- 1))
     = ([Some 1], \<lparr>ts_capacity = - 1, ts_cache = [(1, 1)]\<rparr>)"
proof -
  have "\<not> size_exceeds (Suc 0) (- 1)"
    by (simp add: size_exceeds_neg)
  then show ?thesis
    by (simp add: and_then_def load_def update_node_def new_Node_def addNode_def
        removeNode_def moveToHead_def LRUCache_new_def cpp_get_def cpp_put_def Let_def
        ts_new_def ts_get_def ts_put_def ts_has_def)
qed

text \<open>
  Claim C4, amended. Construction with a negative capacity does not fail: neither
  constructor checks its argument, so \<open>InvalidArgument\<close> is never raised and every
  capacity gives an empty cache with that capacity; the one built from a negative
  capacity is usable (a put followed by a get of the same key returns the value put).
  On a validly constructed cache, capacity at least 0, get and put never fail, as long
  as the allocator grants the nodes asked for (the store of the model has no limit):
  no C++ call reads or writes through a null or freed pointer, and after each call the
  map holds at most \<open>capacity\<close> entries and the store that many nodes and the two
  sentinels. The TypeScript get and put have no failing path (they are total functions
  here, as the source has no \<open>throw\<close>), and the map never holds more than
  \<open>max 1 capacity\<close> entries.
\<close>

theorem construction_unchecked_valid_cache_never_fails:
  "(\<exists>s0. LRUCache_new c = Inr s0 \<and> capacity s0 = c \<and> cache s0 = []) \<and>
   ts_new c' = \<lparr>ts_capacity = c', ts_cache = []\<rparr> \<and>
   (sint cneg < 0 \<longrightarrow>
      (\<exists>s. and_then (LRUCache_new cneg) (cpp_run [Put k v, Get k]) = Inr ([v], s))) \<and>
   fst (ts_run [Put k' v', Get k'] (ts_new c')) = [Some v'] \<and>
   (0 \<le> sint cval \<longrightarrow>
      (\<exists>rs s. and_then (LRUCache_new cval) (cpp_run cs) = Inr (rs, s) \<and>
         int (length (cache s)) \<le> sint cval \<and>
         card (dom (heap s)) = length (cache s) + 2)) \<and>
   int (length (ts_cache (snd (ts_run cs' (ts_new c'))))) \<le> max 1 c'"
proof (intro conjI impI)
  from LRUCache_new_represents [of c] obtain s0 where 0: "LRUCache_new c = Inr s0"
    "represents s0 []" "capacity s0 = c" by blast
  have "cache s0 = []" using represents_obs(2) [OF 0(2)] by simp
  with 0 show "\<exists>s0. LRUCache_new c = Inr s0 \<and> capacity s0 = c \<and> cache s0 = []" by blast
next
  show "ts_new c' = \<lparr>ts_capacity = c', ts_cache = []\<rparr>"
    by (simp add: ts_new_def)
next
  assume neg: "sint cneg < 0"
  have "\<not> size_exceeds (Suc 0) cneg"
    using neg by (rule size_exceeds_neg) simp
  then have "lru_run (\<lambda>n. size_exceeds n cneg) [Put k v, Get k] [] = ([Some v], [(k, v)])"
    by (simp add: lru_put_def lru_get_def AList.delete_eq)
  from cpp_run_by_list [OF this]
  show "\<exists>s. and_then (LRUCache_new cneg) (cpp_run [Put k v, Get k]) = Inr ([v], s)"
    by (auto simp: sentinel_def)
next
  show "fst (ts_run [Put k' v', Get k'] (ts_new c')) = [Some v']"
    by (simp add: ts_new_def ts_put_def ts_get_def ts_has_def)
next
  assume ok: "0 \<le> sint cval"
  obtain rs s where r: "and_then (LRUCache_new cval) (cpp_run cs) = Inr (rs, s)"
    using reachable_total by blast
  have "int (length (cache s)) \<le> sint cval"
    using ok r by (rule cpp_capacity_bound)
  moreover have "card (dom (heap s)) = length (cache s) + 2"
    using r by (rule reachable_live)
  ultimately show "\<exists>rs s. and_then (LRUCache_new cval) (cpp_run cs) = Inr (rs, s) \<and>
         int (length (cache s)) \<le> sint cval \<and> card (dom (heap s)) = length (cache s) + 2"
    using r by blast
next
  show "int (length (ts_cache (snd (ts_run cs' (ts_new c'))))) \<le> max 1 c'"
    by (rule ts_size_bound)
qed

theorem construction_unchecked_valid_cache_never_fails_witness:
  "sint (- 1 :: cint) < 0 \<and>
   (\<exists>s. and_then (LRUCache_new (- 1)) (cpp_run [Put 5 7, Get 5]) = Inr ([7], s)) \<and>
   fst (ts_run [Put (5 :: int) (7 :: int), Get 5] (ts_new (- 1))) = [Some 7] \<and>
   0 \<le> sint (2 :: cint) \<and>
   (\<exists>rs s. and_then (LRUCache_new 2) (cpp_run [Put 1 1, Put 2 2, Get 1, Put 3 3, Get 2]) = Inr (rs, s) \<and>
      int (length (cache s)) \<le> 2 \<and> card (dom (heap s)) = length (cache s) + 2) \<and>
   int (length (ts_cache (snd (ts_run [Put (1 :: int) (1 :: int), Put 2 2] (ts_new (- 1))))))
     \<le> max 1 (- 1)"
proof -
  have h: "sint (- 1 :: cint) < 0" "0 \<le> sint (2 :: cint)" by simp_all
  note T = construction_unchecked_valid_cache_never_fails
    [of 2 "- 1" "- 1" 5 7 "5 :: int" "7 :: int" 2 "[Put 1 1, Put 2 2, Get 1, Put 3 3, Get 2]"
        "[Put (1 :: int) (1 :: int), Put 2 2]"]
  from T h show ?thesis
    by (simp del: ts_run.simps cpp_run.simps) blast
qed

text \<open>
  Claim C5. For every state and every key that is not resident, get returns the
  not-found result and leaves the whole state as it was; so any number of gets of that
  key all return not-found and change nothing.
\<close>

theorem get_absent_key_changes_nothing:
  "(map_of (cache s) k = None \<longrightarrow>
      cpp_get k s = Inr (- 1, s) \<and>
      cpp_run (replicate n (Get k)) s = Inr (replicate n (- 1), s)) \<and>
   (map_of (ts_cache t) k' = None \<longrightarrow>
      ts_get k' t = (None, t) \<and>
      ts_run (replicate n (Get k')) t = (replicate n None, t))"
  by (simp add: cpp_run_replicate_miss ts_run_replicate_miss cpp_get_def ts_get_def ts_has_def)

theorem get_absent_key_changes_nothing_witness:
  "\<exists>s. and_then (LRUCache_new 2) (cpp_put 1 1) = Inr s \<and>
       map_of (cache s) 1 \<noteq> None \<and> map_of (cache s) 2 = None \<and>
       cpp_get 2 s = Inr (- 1, s) \<and>
       cpp_run (replicate 3 (Get 2)) s = Inr (replicate 3 (- 1), s) \<and>
       map_of (ts_cache (ts_put (1 :: int) (1 :: int) (ts_new 2))) 2 = None \<and>
       ts_get 2 (ts_put (1 :: int) (1 :: int) (ts_new 2))
         = (None, ts_put (1 :: int) (1 :: int) (ts_new 2)) \<and>
       ts_run (replicate 3 (Get 2)) (ts_put (1 :: int) (1 :: int) (ts_new 2))
         = (replicate 3 None, ts_put (1 :: int) (1 :: int) (ts_new 2))"
proof -
  have "\<not> size_exceeds (Suc 0) 2" by (simp add: size_exceeds_def)
  then have l: "snd (lru_run (\<lambda>n. size_exceeds n 2) [Put 1 1] []) = [(1, 1 :: cint)]"
    by (simp add: lru_put_def)
  obtain rs s where r: "and_then (LRUCache_new 2) (cpp_run [Put 1 1]) = Inr (rs, s)"
    using reachable_total by blast
  have R: "represents s [(1, 1)]"
    using reachable_represents [OF r] by (simp only: l)
  from r have p: "and_then (LRUCache_new 2) (cpp_put 1 1) = Inr s"
    by (cases "LRUCache_new 2"; cases "cpp_put 1 1 (projr (LRUCache_new 2))") auto
  have m: "map_of (cache s) 1 \<noteq> None" "map_of (cache s) 2 = None"
    using represents_obs(5) [OF R] by simp_all
  have t: "map_of (ts_cache (ts_put (1 :: int) (1 :: int) (ts_new 2))) 2 = None"
    by (simp add: ts_put_def ts_new_def ts_has_def)
  show ?thesis
    using get_absent_key_changes_nothing [of s 2 3 "ts_put (1 :: int) (1 :: int) (ts_new 2)" 2]
      p m t by blast
qed

text \<open>
  Claim C6. When key \<open>k\<close> is resident, put(k, v2) overwrites the value and moves
  \<open>k\<close> to the most recently used position without evicting anything: the resident
  keys and the size stay the same, and get(k) then returns \<open>v2\<close>. For the C++ cache
  the states are those reached from the constructor, and the order is what
  \<open>display\<close> prints (most recent first); for the TypeScript cache the states are
  the maps with one entry per key, most recent last.
\<close>

theorem put_resident_key_never_evicts:
  "(and_then (LRUCache_new c) (cpp_run cs) = Inr (rs, s) \<and> map_of (cache s) k \<noteq> None \<longrightarrow>
      (\<exists>s' s'' xs. cpp_put k v2 s = Inr s' \<and>
         fst ` set (cache s') = fst ` set (cache s) \<and>
         length (cache s') = length (cache s) \<and>
         display s = Some (Inr xs) \<and>
         display s' = Some (Inr ((k, v2) # AList.delete k xs)) \<and>
         cpp_get k s' = Inr (v2, s''))) \<and>
   (distinct (map fst (ts_cache t)) \<and> map_of (ts_cache t) k' \<noteq> None \<longrightarrow>
      fst ` set (ts_cache (ts_put k' w2 t)) = fst ` set (ts_cache t) \<and>
      length (ts_cache (ts_put k' w2 t)) = length (ts_cache t) \<and>
      ts_cache (ts_put k' w2 t) = AList.delete k' (ts_cache t) @ [(k', w2)] \<and>
      fst (ts_get k' (ts_put k' w2 t)) = Some w2)"
proof (intro conjI impI)
  assume a: "and_then (LRUCache_new c) (cpp_run cs) = Inr (rs, s) \<and> map_of (cache s) k \<noteq> None"
  define xs where "xs = snd (lru_run (\<lambda>n. size_exceeds n c) cs [])"
  have R: "represents s xs"
    using reachable_represents [of c cs rs s] a by (simp add: xs_def)
  note O = represents_obs [OF R]
  from a O(5) [of k] obtain v0 where v0: "map_of xs k = Some v0" by auto
  from cpp_put_hit [OF R v0, of v2] obtain s' where p: "cpp_put k v2 s = Inr s'"
    "represents s' ((k, v2) # AList.delete k xs)" by blast
  note O' = represents_obs [OF p(2)]
  from cpp_get_hit [OF p(2), of k v2] obtain s'' where g: "cpp_get k s' = Inr (v2, s'')"
    by auto
  have "fst ` set (cache s') = fst ` set (cache s)"
    using O(1) O'(1) keys_cons_delete [OF v0, of v2] by simp
  moreover have "length (cache s') = length (cache s)"
    using O(2) O'(2) length_delete_present [OF O(3) v0] by simp
  ultimately show "\<exists>s' s'' xs. cpp_put k v2 s = Inr s' \<and>
         fst ` set (cache s') = fst ` set (cache s) \<and>
         length (cache s') = length (cache s) \<and>
         display s = Some (Inr xs) \<and>
         display s' = Some (Inr ((k, v2) # AList.delete k xs)) \<and>
         cpp_get k s' = Inr (v2, s'')"
    using p(1) g O(4) O'(4) by blast
next
  assume "distinct (map fst (ts_cache t)) \<and> map_of (ts_cache t) k' \<noteq> None"
  then obtain v0 where d: "distinct (map fst (ts_cache t))" and m: "map_of (ts_cache t) k' = Some v0"
    by auto
  show "fst ` set (ts_cache (ts_put k' w2 t)) = fst ` set (ts_cache t)"
    using d m by (rule ts_put_resident)
  show "length (ts_cache (ts_put k' w2 t)) = length (ts_cache t)"
    using d m by (rule ts_put_resident)
  show "ts_cache (ts_put k' w2 t) = AList.delete k' (ts_cache t) @ [(k', w2)]"
    using d m by (rule ts_put_resident)
  show "fst (ts_get k' (ts_put k' w2 t)) = Some w2"
    using d m by (rule ts_put_resident)
qed

theorem put_resident_key_never_evicts_witness:
  "(\<exists>rs s. and_then (LRUCache_new 2) (cpp_run [Put 1 10, Put 2 20]) = Inr (rs, s) \<and>
      map_of (cache s) 1 \<noteq> None \<and>
      (\<exists>s' s'' xs. cpp_put 1 11 s = Inr s' \<and>
         fst ` set (cache s') = fst ` set (cache s) \<and>
         length (cache s') = length (cache s) \<and>
         display s = Some (Inr xs) \<and>
         display s' = Some (Inr ((1, 11) # AList.delete 1 xs)) \<and>
         cpp_get 1 s' = Inr (11, s''))) \<and>
   distinct (map fst [(1 :: int, 10 :: int), (2, 20)]) \<and>
   map_of [(1 :: int, 10 :: int), (2, 20)] 1 \<noteq> None \<and>
   ts_cache (ts_put 1 11 \<lparr>ts_capacity = 2, ts_cache = [(1 :: int, 10 :: int), (2, 20)]\<rparr>)
     = [(2, 20), (1, 11)] \<and>
   fst (ts_get 1 (ts_put 1 11 \<lparr>ts_capacity = 2, ts_cache = [(1 :: int, 10 :: int), (2, 20)]\<rparr>))
     = Some 11"
proof -
  obtain rs s where r: "and_then (LRUCache_new 2) (cpp_run [Put 1 10, Put 2 20]) = Inr (rs, s)"
    using reachable_total by blast
  have "\<not> size_exceeds (Suc 0) 2" "\<not> size_exceeds (Suc (Suc 0)) 2"
    by (simp_all add: size_exceeds_def)
  then have l: "snd (lru_run (\<lambda>n. size_exceeds n 2) [Put 1 10, Put 2 20] [])
      = [(2 :: cint, 20 :: cint), (1, 10)]"
    by (simp add: lru_put_def)
  have "represents s [(2, 20), (1, 10)]"
    using reachable_represents [OF r] by (simp only: l)
  then have m: "map_of (cache s) 1 \<noteq> None"
    using represents_obs(5) [of s _ 1] by simp
  let ?t = "\<lparr>ts_capacity = 2, ts_cache = [(1 :: int, 10 :: int), (2, 20)]\<rparr>"
  have d: "distinct (map fst (ts_cache ?t))" "map_of (ts_cache ?t) 1 \<noteq> None" by simp_all
  from put_resident_key_never_evicts [of 2 "[Put 1 10, Put 2 20]" rs s 1 11 ?t 1 11] r m d
  show ?thesis
    by (simp add: AList.delete_eq)
qed

text \<open>
  Claim C7. After put(k1,v1), ..., put(kN,vN) with distinct keys on a fresh cache of
  capacity at least N, every later get of one of these keys succeeds and returns the
  value written for it; all N keys are still resident afterwards.
\<close>

theorem puts_within_capacity_are_all_readable:
  "(distinct (map fst kvs) \<and> int (length kvs) \<le> sint c \<and> set qs \<subseteq> fst ` set kvs \<longrightarrow>
      (\<exists>rs s. and_then (LRUCache_new c) (cpp_run (map (\<lambda>(k, v). Put k v) kvs @ map Get qs))
                 = Inr (rs, s) \<and>
              map Some rs = map (map_of kvs) qs \<and>
              fst ` set (cache s) = fst ` set kvs)) \<and>
   (distinct (map fst kvs') \<and> int (length kvs') \<le> c' \<and> set qs' \<subseteq> fst ` set kvs' \<longrightarrow>
      fst (ts_run (map (\<lambda>(k, v). Put k v) kvs' @ map Get qs') (ts_new c')) = map (map_of kvs') qs' \<and>
      None \<notin> set (fst (ts_run (map (\<lambda>(k, v). Put k v) kvs' @ map Get qs') (ts_new c'))) \<and>
      fst ` set (ts_cache (snd (ts_run (map (\<lambda>(k, v). Put k v) kvs' @ map Get qs') (ts_new c'))))
        = fst ` set kvs')"
proof (intro conjI impI)
  assume a: "distinct (map fst kvs) \<and> int (length kvs) \<le> sint c \<and> set qs \<subseteq> fst ` set kvs"
  let ?cs = "map (\<lambda>(k, v). Put k v) kvs @ map Get qs"
  let ?over = "\<lambda>n. size_exceeds n c"
  have "\<not> size_exceeds n c" if "n \<le> length kvs" for n
  proof -
    have "0 \<le> sint c" using a by linarith
    moreover have "length kvs \<le> 2 ^ 32" using a length_keys_bound by blast
    then have "n < 2 ^ 64" using that by simp
    ultimately show ?thesis
      using a that by (simp add: size_exceeds_nonneg)
  qed
  then have o: "\<forall>n. n \<le> length kvs \<longrightarrow> \<not> ?over n" by blast
  note L = lru_run_puts_gets [of kvs ?over qs, OF _ o]
  obtain rs s where r: "and_then (LRUCache_new c) (cpp_run ?cs) = Inr (rs, s)"
    using reachable_total by blast
  note R = reachable_represents [OF r]
  have "rs = map sentinel (map (map_of kvs) qs)"
    using R L(1) a by simp
  moreover have "\<forall>r\<in>set (map (map_of kvs) qs). r \<noteq> None"
    using L(3) a by simp
  ultimately have "map Some rs = map (map_of kvs) qs"
    by (auto simp: sentinel_def)
  moreover have "fst ` set (cache s) = fst ` set kvs"
    using represents_obs(1) [OF R [THEN conjunct1]] L(2) a by simp
  ultimately show "\<exists>rs s. and_then (LRUCache_new c) (cpp_run ?cs) = Inr (rs, s) \<and>
              map Some rs = map (map_of kvs) qs \<and> fst ` set (cache s) = fst ` set kvs"
    using r by blast
next
  assume a: "distinct (map fst kvs') \<and> int (length kvs') \<le> c' \<and> set qs' \<subseteq> fst ` set kvs'"
  define cs where "cs = map (\<lambda>(k, v). Put k v) kvs' @ map Get qs'"
  define t where "t = ts_run cs (ts_new c')"
  have main: "fst t = map (map_of kvs') qs' \<and> fst ` set (ts_cache (snd t)) = fst ` set kvs'"
  proof (cases "kvs' = []")
    case True
    with a have "qs' = []" by simp
    with True show ?thesis by (simp add: t_def cs_def ts_new_def)
  next
    case False
    then have c1: "1 \<le> ts_capacity (ts_new c')"
      using a by (cases kvs') (simp_all add: ts_new_def)
    have o: "\<forall>n. n \<le> length kvs' \<longrightarrow> \<not> c' < int n"
      using a by auto
    note L = lru_run_puts_gets [of kvs' "\<lambda>n. c' < int n" qs', OF _ o]
    have e: "ts_cache (ts_new c') = rev []" by (simp add: ts_new_def)
    have d: "distinct (map fst [])" by simp
    have "t = (fst (lru_run (\<lambda>n. c' < int n) cs []),
        (ts_new c')\<lparr>ts_cache := rev (snd (lru_run (\<lambda>n. c' < int n) cs []))\<rparr>)"
      using ts_run_refines [OF c1 d e, of cs] by (simp add: t_def ts_new_def)
    then show ?thesis
      using L a by (simp add: cs_def)
  qed
  then show "fst (ts_run (map (\<lambda>(k, v). Put k v) kvs' @ map Get qs') (ts_new c')) = map (map_of kvs') qs'"
    and "fst ` set (ts_cache (snd (ts_run (map (\<lambda>(k, v). Put k v) kvs' @ map Get qs') (ts_new c'))))
        = fst ` set kvs'"
    by (simp_all add: t_def cs_def)
  have "map_of kvs' q \<noteq> None" if "q \<in> set qs'" for q
    using that a by (simp add: map_of_eq_None_iff subset_iff)
  then have "\<forall>r\<in>set (map (map_of kvs') qs'). r \<noteq> None"
    by auto
  then show "None \<notin> set (fst (ts_run (map (\<lambda>(k, v). Put k v) kvs' @ map Get qs') (ts_new c')))"
    using main by (auto simp: t_def cs_def)
qed

theorem puts_within_capacity_are_all_readable_witness:
  "distinct (map fst [(1 :: cint, 10 :: cint), (2, 20)]) \<and>
   int (length [(1 :: cint, 10 :: cint), (2, 20)]) \<le> sint (2 :: cint) \<and>
   set [2, 1, 2] \<subseteq> fst ` set [(1 :: cint, 10 :: cint), (2, 20)] \<and>
   (\<exists>s. and_then (LRUCache_new 2) (cpp_run [Put 1 10, Put 2 20, Get 2, Get 1, Get 2])
          = Inr ([20, 10, 20], s) \<and>
        fst ` set (cache s) = {1, 2}) \<and>
   distinct (map fst [(1 :: int, 10 :: int), (2, 20)]) \<and>
   int (length [(1 :: int, 10 :: int), (2, 20)]) \<le> 2 \<and>
   set [2, 1, 2] \<subseteq> fst ` set [(1 :: int, 10 :: int), (2, 20)] \<and>
   fst (ts_run [Put (1 :: int) (10 :: int), Put 2 20, Get 2, Get 1, Get 2] (ts_new 2))
     = [Some 20, Some 10, Some 20] \<and>
   fst ` set (ts_cache (snd (ts_run [Put (1 :: int) (10 :: int), Put 2 20, Get 2, Get 1, Get 2]
     (ts_new 2)))) = {1, 2}"
proof -
  have h: "distinct (map fst [(1 :: cint, 10 :: cint), (2, 20)]) \<and>
      int (length [(1 :: cint, 10 :: cint), (2, 20)]) \<le> sint (2 :: cint) \<and>
      set [2, 1, 2] \<subseteq> fst ` set [(1 :: cint, 10 :: cint), (2, 20)]"
    by simp
  have h': "distinct (map fst [(1 :: int, 10 :: int), (2, 20)]) \<and>
      int (length [(1 :: int, 10 :: int), (2, 20)]) \<le> 2 \<and>
      set [2, 1, 2] \<subseteq> fst ` set [(1 :: int, 10 :: int), (2, 20)]"
    by simp
  have s: "fst ` set [(1 :: cint, 10 :: cint), (2, 20)] = {1, 2}"
    "fst ` set [(1 :: int, 10 :: int), (2, 20)] = {1, 2}"
    by simp_all
  from puts_within_capacity_are_all_readable
    [of "[(1, 10), (2, 20)]" 2 "[2, 1, 2]" "[(1, 10), (2, 20)]" 2 "[2, 1, 2]"] h h'
  show ?thesis
    by (simp only: s) auto
qed

text \<open>
  Claim C8. A C++ cache constructed with a negative capacity never evicts: the
  comparison of the map's size with the capacity is unsigned, and the converted
  capacity is larger than any size the map can reach. Every put keeps all resident
  keys, and a put of a key that is not resident makes the size one larger; so any
  number of distinct keys put into a fresh cache are all resident afterwards.
\<close>

theorem negative_capacity_never_evicts:
  assumes "sint c < 0" and "and_then (LRUCache_new c) (cpp_run cs) = Inr (rs, s)"
    and "distinct (map fst kvs)"
  shows "(\<exists>s'. cpp_put k v s = Inr s' \<and>
           fst ` set (cache s') = insert k (fst ` set (cache s)) \<and>
           length (cache s') = (if map_of (cache s) k = None then Suc (length (cache s))
                                else length (cache s))) \<and>
         (\<exists>s'. and_then (LRUCache_new c) (cpp_run (map (\<lambda>(k, v). Put k v) kvs)) = Inr ([], s') \<and>
           length (cache s') = length kvs \<and> fst ` set (cache s') = fst ` set kvs)"
proof
  define xs where "xs = snd (lru_run (\<lambda>n. size_exceeds n c) cs [])"
  have R: "represents s xs" and c: "capacity s = c"
    using reachable_represents [OF assms(2)] by (simp_all add: xs_def)
  note O = represents_obs [OF R]
  have "length xs \<le> 2 ^ 32" using O(3) by (rule length_keys_bound)
  then have "\<not> size_exceeds (Suc (length xs)) c"
    using assms(1) by (intro size_exceeds_neg) simp_all
  then have put: "lru_put (\<lambda>n. size_exceeds n c) k v xs =
      (if map_of xs k = None then (k, v) # xs else (k, v) # AList.delete k xs)"
    by (simp add: lru_put_def)
  from cpp_put_refines [OF R, of k v] c obtain s' where p: "cpp_put k v s = Inr s'"
    "represents s' (lru_put (\<lambda>n. size_exceeds n c) k v xs)" by auto
  note O' = represents_obs [OF p(2)]
  have "fst ` set (cache s') = insert k (fst ` set (cache s))"
  proof (cases "map_of xs k")
    case None
    then show ?thesis using O(1) O'(1) put by simp
  next
    case (Some v0)
    then have "k \<in> fst ` set xs" by (metis map_of_eq_None_iff option.distinct(1))
    then show ?thesis
      using O(1) O'(1) put keys_cons_delete [OF Some, of v] Some by (simp add: insert_absorb)
  qed
  moreover have "length (cache s') = (if map_of (cache s) k = None then Suc (length (cache s))
                                else length (cache s))"
  proof (cases "map_of xs k")
    case None
    then show ?thesis using O(2,5) O'(2) put by simp
  next
    case (Some v0)
    then show ?thesis
      using O(2) O(5) [of k] O'(2) put length_delete_present [OF O(3) Some] by simp
  qed
  ultimately show "\<exists>s'. cpp_put k v s = Inr s' \<and>
           fst ` set (cache s') = insert k (fst ` set (cache s)) \<and>
           length (cache s') = (if map_of (cache s) k = None then Suc (length (cache s))
                                else length (cache s))"
    using p(1) by blast
next
  let ?ps = "map (\<lambda>(k, v). Put k v) kvs"
  have b: "length kvs \<le> 2 ^ 32" using assms(3) by (rule length_keys_bound)
  have "\<not> size_exceeds n c" if "n \<le> length kvs" for n
    using assms(1) by (rule size_exceeds_neg) (use b that in simp)
  then have o: "\<forall>n. n \<le> length kvs + length ([] :: (cint \<times> cint) list) \<longrightarrow> \<not> size_exceeds n c"
    by simp
  have d: "distinct (map fst (rev kvs @ []))"
    using assms(3) by (simp add: rev_map [symmetric])
  have l: "lru_run (\<lambda>n. size_exceeds n c) ?ps [] = ([], rev kvs)"
    using lru_run_puts [OF o d] by simp
  from cpp_run_by_list [OF l] show "\<exists>s'. and_then (LRUCache_new c) (cpp_run ?ps) = Inr ([], s') \<and>
      length (cache s') = length kvs \<and> fst ` set (cache s') = fst ` set kvs"
    by auto
qed

theorem negative_capacity_never_evicts_witness:
  "sint (- 1 :: cint) < 0 \<and>
   distinct (map fst [(1 :: cint, 1 :: cint), (2, 2), (3, 3)]) \<and>
   (\<exists>rs s. and_then (LRUCache_new (- 1)) (cpp_run [Put 1 1, Put 2 2, Get 1]) = Inr (rs, s) \<and>
      map_of (cache s) 3 = None \<and>
      (\<exists>s'. cpp_put 3 3 s = Inr s' \<and>
           fst ` set (cache s') = insert 3 (fst ` set (cache s)) \<and>
           length (cache s') = Suc (length (cache s)))) \<and>
   (\<exists>s'. and_then (LRUCache_new (- 1)) (cpp_run [Put 1 1, Put 2 2, Put 3 3]) = Inr ([], s') \<and>
      length (cache s') = 3 \<and> fst ` set (cache s') = {1, 2, 3})"
proof -
  obtain rs s where r: "and_then (LRUCache_new (- 1)) (cpp_run [Put 1 1, Put 2 2, Get 1]) = Inr (rs, s)"
    using reachable_total by blast
  have n: "sint (- 1 :: cint) < 0" by simp
  have d: "distinct (map fst [(1 :: cint, 1 :: cint), (2, 2), (3, 3)])" by simp
  define xs :: "(cint \<times> cint) list"
    where "xs = snd (lru_run (\<lambda>n. size_exceeds n (- 1)) [Put 1 1, Put 2 2, Get 1] [])"
  have R: "represents s xs"
    using reachable_represents [OF r] by (simp add: xs_def)
  have "\<not> size_exceeds (Suc 0) (- 1)" "\<not> size_exceeds (Suc (Suc 0)) (- 1)"
    using n by (simp_all add: size_exceeds_neg)
  then have "xs = [(1, 1), (2, 2)]"
    by (simp add: xs_def lru_put_def lru_get_def AList.delete_eq)
  then have m: "map_of (cache s) 3 = None"
    using represents_obs(5) [OF R, of 3] by simp
  have e: "fst ` set [(1 :: cint, 1 :: cint), (2, 2), (3, 3)] = {1, 2, 3}" by simp
  from negative_capacity_never_evicts [OF n r d, of 3 3] m r n d show ?thesis
    by (simp only: e) auto
qed

text \<open>
  Claim C9. For every capacity \<open>c \<ge> 1\<close> and every sequence of calls with integer keys
  and values, the two caches agree after each prefix of the sequence: they hold the
  same keys, and every get returns the same value in both, or -1 in C++ where it
  returns \<open>undefined\<close> in TypeScript.
\<close>

theorem typescript_and_cpp_agree:
  assumes "1 \<le> sint c"
  shows "\<exists>rs s. and_then (LRUCache_new c) (cpp_run (take n cs)) = Inr (rs, s) \<and>
           rs = map sentinel (fst (ts_run (take n cs) (ts_new (sint c)))) \<and>
           fst ` set (cache s) = fst ` set (ts_cache (snd (ts_run (take n cs) (ts_new (sint c)))))"
proof -
  define ds where "ds = take n cs"
  obtain rs s where r: "and_then (LRUCache_new c) (cpp_run ds) = Inr (rs, s)"
    using reachable_total by blast
  note R = reachable_represents [OF r]
  have e: "\<forall>n. n < 2 ^ 64 \<longrightarrow> size_exceeds n c = (sint c < int n)"
    using assms by (simp add: size_exceeds_nonneg)
  have eq: "lru_run (\<lambda>n. size_exceeds n c) ds ([] :: (cint \<times> cint) list)
      = lru_run (\<lambda>n. sint c < int n) ds []"
    using e by (intro lru_run_cong) simp_all
  have c1: "1 \<le> ts_capacity (ts_new (sint c))"
    using assms by (simp add: ts_new_def)
  have t: "ts_run ds (ts_new (sint c)) = (fst (lru_run (\<lambda>n. sint c < int n) ds []),
      (ts_new (sint c))\<lparr>ts_cache := rev (snd (lru_run (\<lambda>n. sint c < int n) ds []))\<rparr>)"
    using ts_run_refines [OF c1, of "[]" ds] by (simp add: ts_new_def)
  have "rs = map sentinel (fst (ts_run ds (ts_new (sint c))))"
    using R by (simp add: t eq)
  moreover have "fst ` set (cache s) = fst ` set (ts_cache (snd (ts_run ds (ts_new (sint c)))))"
    using represents_obs(1) [OF R [THEN conjunct1]] by (simp add: t eq)
  ultimately show ?thesis
    using r unfolding ds_def by blast
qed

theorem typescript_and_cpp_agree_witness:
  "1 \<le> sint (2 :: cint) \<and>
   (\<exists>rs s. and_then (LRUCache_new 2) (cpp_run (take 5 [Put 1 1, Put 2 2, Get 1, Put 3 (- 1), Get 2, Get 3]))
        = Inr (rs, s) \<and>
      rs = map sentinel [Some 1, None] \<and>
      fst (ts_run (take 5 [Put (1 :: cint) (1 :: cint), Put 2 2, Get 1, Put 3 (- 1), Get 2, Get 3])
             (ts_new (sint (2 :: cint))))
        = [Some 1, None] \<and>
      fst ` set (cache s) = {1, 3})"
proof -
  have t: "ts_run (take 5 [Put (1 :: cint) (1 :: cint), Put 2 2, Get 1, Put 3 (- 1), Get 2, Get 3])
        (ts_new (sint (2 :: cint)))
      = ([Some 1, None], \<lparr>ts_capacity = 2, ts_cache = [(1, 1), (3, - 1)]\<rparr>)"
    by (simp add: ts_new_def ts_get_def ts_put_def ts_has_def AList.delete_eq)
  have h: "1 \<le> sint (2 :: cint)" by simp
  from typescript_and_cpp_agree [OF h, of 5 "[Put 1 1, Put 2 2, Get 1, Put 3 (- 1), Get 2, Get 3]"]
  show ?thesis
    by (simp only: t) auto
qed

text \<open>
  Claim C10. In the C++ cache a stored value of -1 cannot be told from a miss: on a
  cache of capacity at least 1, after put(k, -1) the key \<open>k\<close> is resident and get(k)
  returns -1, which is also what get returns for a key that was never inserted.
\<close>

theorem stored_minus_one_reads_like_a_miss:
  assumes "1 \<le> sint c" and "k' \<noteq> k"
  shows "\<exists>s s1 s2. and_then (LRUCache_new c) (cpp_put k (- 1)) = Inr s \<and>
           map_of (cache s) k \<noteq> None \<and> map_of (cache s) k' = None \<and>
           cpp_get k s = Inr (- 1, s1) \<and> cpp_get k' s = Inr (- 1, s2)"
proof -
  have "\<not> size_exceeds (Suc 0) c"
    using assms(1) by (simp add: size_exceeds_nonneg)
  then have l: "snd (lru_run (\<lambda>n. size_exceeds n c) [Put k (- 1)] []) = [(k, - 1)]"
    by (simp add: lru_put_def)
  obtain rs s where r: "and_then (LRUCache_new c) (cpp_run [Put k (- 1)]) = Inr (rs, s)"
    using reachable_total by blast
  have R: "represents s [(k, - 1)]"
    using reachable_represents [OF r] by (simp only: l)
  from r have p: "and_then (LRUCache_new c) (cpp_put k (- 1)) = Inr s"
    by (cases "LRUCache_new c"; cases "cpp_put k (- 1) (projr (LRUCache_new c))") auto
  from cpp_get_hit [OF R, of k "- 1"] obtain s1 where "cpp_get k s = Inr (- 1, s1)" by auto
  moreover from cpp_get_miss [OF R, of k'] assms(2) have "cpp_get k' s = Inr (- 1, s)" by simp
  moreover have "map_of (cache s) k \<noteq> None" "map_of (cache s) k' = None"
    using represents_obs(5) [OF R] assms(2) by simp_all
  ultimately show ?thesis using p by blast
qed

theorem stored_minus_one_reads_like_a_miss_witness:
  "1 \<le> sint (1 :: cint) \<and> (7 :: cint) \<noteq> 5 \<and>
   (\<exists>s s1 s2. and_then (LRUCache_new 1) (cpp_put 5 (- 1)) = Inr s \<and>
           map_of (cache s) 5 \<noteq> None \<and> map_of (cache s) 7 = None \<and>
           cpp_get 5 s = Inr (- 1, s1) \<and> cpp_get 7 s = Inr (- 1, s2))"
  using stored_minus_one_reads_like_a_miss [of 1 7 5] by simp

end
